theory Spec2Isabelle
  imports Complex_Main "HOL-Library.Sublist" "HOL-Library.Multiset" "HOL-Library.Char_ord"
    "HOL-Library.List_Lexorder"
begin

section \<open>Text utilities\<close>

text \<open>
  Strings of the scraper are modelled as \<^typ>\<open>string\<close>, one \<^typ>\<open>char\<close> per code unit
  (code units below 256). The regular-expression class \<open>\d\<close> is the ten ASCII digits;
  \<open>\s\<close> is, among the code units below 256, tab, line feed, vertical tab, form feed,
  carriage return, space and the no-break space.
\<close>

definition is_digit :: "char \<Rightarrow> bool" where
  "is_digit c = ((48::nat) \<le> of_char c \<and> of_char c \<le> (57::nat))"

definition digit_val :: "char \<Rightarrow> nat" where
  "digit_val c = of_char c - (48::nat)"

definition is_space :: "char \<Rightarrow> bool" where
  "is_space c = ((of_char c :: nat) \<in> {9, 10, 11, 12, 13, 32, 160})"

text \<open>\<open>value.replace(/\s+/g, " ")\<close>: every maximal run of white space becomes one space.\<close>

function collapse_ws :: "string \<Rightarrow> string" where
  "collapse_ws [] = []"
| "collapse_ws (c # cs) =
     (if is_space c then CHR '' '' # collapse_ws (dropWhile is_space cs)
      else c # collapse_ws cs)"
  by pat_completeness auto
termination
  by (relation "measure length") (auto simp: length_dropWhile_le less_Suc_eq_le)

definition trim :: "string \<Rightarrow> string" where
  "trim s = rev (dropWhile is_space (rev (dropWhile is_space s)))"

definition cleanText :: "string \<Rightarrow> string" where
  "cleanText v = trim (collapse_ws v)"

text \<open>The value of a run of decimal digits, most significant first.\<close>

definition digits_val :: "string \<Rightarrow> nat" where
  "digits_val s = foldl (\<lambda>n c. 10 * n + digit_val c) 0 s"

section \<open>Meal normalizer\<close>

record MealPrice =
  raw :: string
  currency :: string
  values_of :: "rat list"
  labels :: "string list"

record MealEntry =
  title :: string
  allergens :: "string list"
  allergensRaw :: "string option"
  price :: "MealPrice option"
  highlight :: bool

record MealCategory =
  cat_title :: string
  meals :: "MealEntry list"

text \<open>
  An item fragment, as \<open>parseMeal\<close> reads it through the document queries: the text of
  its first \<open>h4\<close> without the \<open>small\<close> element, the text of that \<open>small\<close> element, the
  text of its \<open>.price\<close> elements, and whether it carries the class \<open>item-tip\<close>.
\<close>

record ItemFragment =
  heading_text :: string
  small_text :: string
  price_text :: string
  item_tip :: bool

fun derivePriceLabels :: "nat \<Rightarrow> string list" where
  "derivePriceLabels cnt =
     (if cnt = 2 then [''students'', ''guests'']
      else if cnt = 3 then [''students'', ''staff'', ''guests'']
      else [])"

text \<open>
  \<open>priceText.matchAll(/(\d{1,2},\d{2})/g)\<close>: the matches from left to right. At each
  position the greedy \<open>\d{1,2}\<close> first tries two digits, then one; after a match the
  scan resumes behind it, after a failure one code unit further.
\<close>

fun price_tokens :: "string \<Rightarrow> string list" where
  "price_tokens (a # b # c # d # e # rest) =
     (if is_digit a \<and> is_digit b \<and> c = CHR '','' \<and> is_digit d \<and> is_digit e
      then [a, b, c, d, e] # price_tokens rest
      else if is_digit a \<and> b = CHR '','' \<and> is_digit c \<and> is_digit d
      then [a, b, c, d] # price_tokens (e # rest)
      else price_tokens (b # c # d # e # rest))"
| "price_tokens [a, b, c, d] =
     (if is_digit a \<and> b = CHR '','' \<and> is_digit c \<and> is_digit d then [[a, b, c, d]] else [])"
| "price_tokens _ = []"

text \<open>
  \<open>Number(value.replace(/\./g, "").replace(",", "."))\<close>. \<open>Number\<close> is modelled on the
  unsigned decimal literals (digits, a point, digits), which are the only strings it
  receives here: the price tokens.
\<close>

fun replace_first :: "char \<Rightarrow> char \<Rightarrow> string \<Rightarrow> string" where
  "replace_first a b [] = []"
| "replace_first a b (c # cs) = (if c = a then b # cs else c # replace_first a b cs)"

definition Number_decimal :: "string \<Rightarrow> rat" where
  "Number_decimal s =
     (let whole = takeWhile (\<lambda>c. c \<noteq> CHR ''.'') s;
          frac = drop 1 (dropWhile (\<lambda>c. c \<noteq> CHR ''.'') s)
      in of_nat (digits_val whole) + of_nat (digits_val frac) / 10 ^ length frac)"

definition parseLocaleNumber :: "string \<Rightarrow> rat" where
  "parseLocaleNumber v =
     Number_decimal (replace_first (CHR '','') (CHR ''.'') (filter (\<lambda>c. c \<noteq> CHR ''.'') v))"

text \<open>\<open>s.replace(/^\(|\)$/g, "")\<close>: drop one opening parenthesis at the start and one
  closing parenthesis at the end.\<close>

definition strip_parens :: "string \<Rightarrow> string" where
  "strip_parens s =
     (let t = (case s of c # cs \<Rightarrow> if c = CHR ''('' then cs else s | [] \<Rightarrow> [])
      in if t \<noteq> [] \<and> last t = CHR '')'' then butlast t else t)"

text \<open>\<open>s.split(",")\<close>.\<close>

fun split_comma :: "string \<Rightarrow> string list" where
  "split_comma [] = [[]]"
| "split_comma (c # cs) =
     (case split_comma cs of
        t # ts \<Rightarrow> if c = CHR '','' then [] # t # ts else (c # t) # ts
      | [] \<Rightarrow> [[c]])"

definition priceValues :: "ItemFragment \<Rightarrow> rat list" where
  "priceValues item = map parseLocaleNumber (price_tokens (cleanText (price_text item)))"

definition parseMeal :: "ItemFragment \<Rightarrow> MealEntry" where
  "parseMeal item =
     (let title = cleanText (heading_text item);
          allergensRaw = strip_parens (cleanText (small_text item));
          allergens =
            (if length allergensRaw > 0
             then filter (\<lambda>t. t \<noteq> []) (map cleanText (split_comma allergensRaw))
             else []);
          priceText = cleanText (price_text item);
          priceValues = map parseLocaleNumber (price_tokens priceText);
          price =
            (if length priceValues > 0
             then Some \<lparr>raw = priceText, currency = ''EUR'', values_of = priceValues,
                        labels = derivePriceLabels (length priceValues)\<rparr>
             else None)
      in \<lparr>title = title, allergens = allergens,
          allergensRaw = (if length allergensRaw > 0 then Some allergensRaw else None),
          price = price, highlight = item_tip item\<rparr>)"

section \<open>Calendar arithmetic of the \<open>Date\<close> object\<close>

text \<open>
  A \<open>Date\<close> is its time value: the milliseconds since 1970-01-01T00:00:00Z, an
  \<^typ>\<open>int\<close>. The functions below are the day and year functions of the ECMAScript
  specification (Day, DayFromYear, YearFromTime, MonthFromTime, DateFromTime, WeekDay,
  MakeDay, \<open>Date.UTC\<close>). The model covers the time values inside the range of the
  \<open>Date\<close> object (a hundred million days on either side of 1970); the clipping of
  larger values to an invalid date is not modelled.
\<close>

type_synonym Date = int

definition msPerDay :: int where
  "msPerDay = 86400000"

definition Day :: "Date \<Rightarrow> int" where
  "Day t = t div msPerDay"

definition DayFromYear :: "int \<Rightarrow> int" where
  "DayFromYear y =
     365 * (y - 1970) + (y - 1969) div 4 - (y - 1901) div 100 + (y - 1601) div 400"

definition InLeapYear :: "int \<Rightarrow> bool" where
  "InLeapYear y = (y mod 4 = 0 \<and> (y mod 100 \<noteq> 0 \<or> y mod 400 = 0))"

definition DaysInYear :: "int \<Rightarrow> int" where
  "DaysInYear y = (if InLeapYear y then 366 else 365)"

text \<open>
  YearFromTime is the largest year whose first day is not after the given day. It is
  computed from the mean length of a year, 146097 / 400 days, which is off by at most
  one year (lemmas \<open>YearFromDay_lower\<close>, \<open>YearFromDay_upper\<close>, \<open>YearFromDay_eqI\<close>).
\<close>

definition YearFromDay :: "int \<Rightarrow> int" where
  "YearFromDay d =
     (let y = 1970 + (400 * d) div 146097
      in if DayFromYear (y + 1) \<le> d then y + 1
         else if DayFromYear y \<le> d then y
         else y - 1)"

definition DayWithinYear :: "int \<Rightarrow> int" where
  "DayWithinYear d = d - DayFromYear (YearFromDay d)"

text \<open>The number of days of a year before its month \<open>m\<close> (0 is January).\<close>

definition month_start :: "bool \<Rightarrow> int \<Rightarrow> int" where
  "month_start leap m =
     (if m = 0 then 0 else if m = 1 then 31
      else (if leap then 1 else 0) +
        (if m = 2 then 59 else if m = 3 then 90 else if m = 4 then 120
         else if m = 5 then 151 else if m = 6 then 181 else if m = 7 then 212
         else if m = 8 then 243 else if m = 9 then 273 else if m = 10 then 304
         else 334))"

definition MonthFromDay :: "int \<Rightarrow> int" where
  "MonthFromDay d =
     (let w = DayWithinYear d; l = (if InLeapYear (YearFromDay d) then 1 else 0)
      in if w < 31 then 0 else if w < 59 + l then 1 else if w < 90 + l then 2
         else if w < 120 + l then 3 else if w < 151 + l then 4 else if w < 181 + l then 5
         else if w < 212 + l then 6 else if w < 243 + l then 7 else if w < 273 + l then 8
         else if w < 304 + l then 9 else if w < 334 + l then 10 else 11)"

definition DateFromDay :: "int \<Rightarrow> int" where
  "DateFromDay d =
     DayWithinYear d - month_start (InLeapYear (YearFromDay d)) (MonthFromDay d) + 1"

definition WeekDay :: "int \<Rightarrow> int" where
  "WeekDay d = (d + 4) mod 7"

definition MakeDay :: "int \<Rightarrow> int \<Rightarrow> int \<Rightarrow> int" where
  "MakeDay year month date =
     (let ym = year + month div 12; mn = month mod 12
      in DayFromYear ym + month_start (InLeapYear ym) mn + date - 1)"

text \<open>\<open>Date.UTC(year, month, date)\<close>: a year from 0 to 99 stands for 1900 + year.\<close>

definition two_digit_year :: "int \<Rightarrow> bool" where
  "two_digit_year y = (0 \<le> y \<and> y \<le> 99)"

definition MakeFullYear :: "int \<Rightarrow> int" where
  "MakeFullYear y = (if two_digit_year y then 1900 + y else y)"

definition Date_UTC :: "int \<Rightarrow> int \<Rightarrow> int \<Rightarrow> Date" where
  "Date_UTC year month date = MakeDay (MakeFullYear year) month date * msPerDay"

definition getUTCFullYear :: "Date \<Rightarrow> int" where
  "getUTCFullYear t = YearFromDay (Day t)"

definition getUTCMonth :: "Date \<Rightarrow> int" where
  "getUTCMonth t = MonthFromDay (Day t)"

definition getUTCDate :: "Date \<Rightarrow> int" where
  "getUTCDate t = DateFromDay (Day t)"

definition getUTCDay :: "Date \<Rightarrow> int" where
  "getUTCDay t = WeekDay (Day t)"

text \<open>\<open>date.setUTCDate(dt)\<close> keeps the year, the month and the time within the day.\<close>

definition setUTCDate :: "Date \<Rightarrow> int \<Rightarrow> Date" where
  "setUTCDate t dt =
     MakeDay (getUTCFullYear t) (getUTCMonth t) dt * msPerDay + t mod msPerDay"

section \<open>Date resolver\<close>

text \<open>\<open>label.match(/(\d{2})\.(\d{2})\./)\<close>: the leftmost place where two digits, a
  point, two digits and a point stand; the result is the pair of the day token and the
  month token as numbers.\<close>

fun match_day_month :: "string \<Rightarrow> (int \<times> int) option" where
  "match_day_month (a # b # c # d # e # f # rest) =
     (if is_digit a \<and> is_digit b \<and> c = CHR ''.'' \<and> is_digit d \<and> is_digit e \<and> f = CHR ''.''
      then Some (int (digits_val [a, b]), int (digits_val [d, e]))
      else match_day_month (b # c # d # e # f # rest))"
| "match_day_month _ = None"

datatype error = UnableToParseDayLabel string | NoSpeiseplanContainer

text \<open>\<open>previous\<close> is \<open>None\<close> for \<open>null\<close>.\<close>

definition resolveDayDate :: "string \<Rightarrow> Date \<Rightarrow> Date option \<Rightarrow> error + Date" where
  "resolveDayDate label startDate previous =
     (case match_day_month label of
        None \<Rightarrow> Inl (UnableToParseDayLabel label)
      | Some (day, month) \<Rightarrow>
          (let year0 = (case previous of Some p \<Rightarrow> getUTCFullYear p
                        | None \<Rightarrow> getUTCFullYear startDate);
               candidate0 = Date_UTC year0 (month - 1) day;
               (year, candidate1) =
                 (case previous of
                    Some p \<Rightarrow>
                      if candidate0 < p then (year0 + 1, Date_UTC (year0 + 1) (month - 1) day)
                      else (year0, candidate0)
                  | None \<Rightarrow> (year0, candidate0));
               candidate =
                 (if previous = None \<and> getUTCMonth candidate1 \<noteq> getUTCMonth startDate
                  then Date_UTC (getUTCFullYear startDate) (month - 1) day
                  else candidate1)
           in Inr candidate))"

text \<open>The loop of \<open>parseMenuPage\<close> over the day labels of one container, as far as the
  dates go: each resolved date is the \<open>previous\<close> of the next call, and the first label
  that does not parse ends the run with its error.\<close>

fun resolve_from :: "Date \<Rightarrow> Date option \<Rightarrow> string list \<Rightarrow> error + Date list" where
  "resolve_from startDate previous [] = Inr []"
| "resolve_from startDate previous (l # ls) =
     (case resolveDayDate l startDate previous of
        Inl e \<Rightarrow> Inl e
      | Inr d \<Rightarrow>
          (case resolve_from startDate (Some d) ls of
             Inl e \<Rightarrow> Inl e
           | Inr ds \<Rightarrow> Inr (d # ds)))"

definition resolve_labels :: "Date \<Rightarrow> string list \<Rightarrow> error + Date list" where
  "resolve_labels startDate ls = resolve_from startDate None ls"

text \<open>Notions for the statements about the resolver. A label's month number is positive
  when the month token is not \<open>00\<close>.\<close>

definition month_positive :: "string \<Rightarrow> bool" where
  "month_positive l = (case match_day_month l of Some (d, m) \<Rightarrow> 1 \<le> m | None \<Rightarrow> False)"

text \<open>A valid label names a day of the calendar: a month from 1 to 12 and a day from 1
  to the length of that month (29 for February). Labels ascend when their (month, day)
  pairs do.\<close>

definition month_days :: "int \<Rightarrow> int" where
  "month_days m = (if m = 2 then 29 else if m = 4 \<or> m = 6 \<or> m = 9 \<or> m = 11 then 30 else 31)"

definition valid_label :: "string \<Rightarrow> bool" where
  "valid_label l =
     (case match_day_month l of
        Some (d, m) \<Rightarrow> 1 \<le> m \<and> m \<le> 12 \<and> 1 \<le> d \<and> d \<le> month_days m
      | None \<Rightarrow> False)"

definition label_le :: "string \<Rightarrow> string \<Rightarrow> bool" where
  "label_le l l' =
     (case (match_day_month l, match_day_month l') of
        (Some (d, m), Some (d', m')) \<Rightarrow> m < m' \<or> (m = m' \<and> d \<le> d')
      | _ \<Rightarrow> False)"

definition month_of :: "string \<Rightarrow> int" where
  "month_of l = (case match_day_month l of Some (d, m) \<Rightarrow> m | None \<Rightarrow> 0)"

text \<open>A run of labels spans a year boundary when it is an ascending run of valid labels
  that ends after January, followed by an ascending run of valid labels that starts in
  January: the days of a week across New Year.\<close>

definition spans_year_boundary :: "string list \<Rightarrow> string list \<Rightarrow> bool" where
  "spans_year_boundary xs ys =
     (xs \<noteq> [] \<and> ys \<noteq> [] \<and> list_all valid_label (xs @ ys) \<and>
      sorted_wrt label_le xs \<and> sorted_wrt label_le ys \<and>
      2 \<le> month_of (last xs) \<and> month_of (hd ys) = 1)"

text \<open>The number of places in a sequence of dates where the year goes up.\<close>

definition year_increases :: "Date list \<Rightarrow> nat" where
  "year_increases ds =
     length (filter (\<lambda>(a, b). getUTCFullYear a < getUTCFullYear b) (zip ds (tl ds)))"

text \<open>The date of a label in a given year.\<close>

definition date_in :: "int \<Rightarrow> string \<Rightarrow> Date" where
  "date_in Y l =
     (case match_day_month l of Some (d, m) \<Rightarrow> MakeDay Y (m - 1) d * msPerDay | None \<Rightarrow> 0)"

text \<open>\<open>text.match(/(\d{2})\.(\d{2})\.(\d{4})/)\<close> and the date built from its groups.\<close>

fun extractFirstDate :: "string \<Rightarrow> Date option" where
  "extractFirstDate (a # b # c # d # e # f # g # h # i # j # rest) =
     (if is_digit a \<and> is_digit b \<and> c = CHR ''.'' \<and> is_digit d \<and> is_digit e \<and> f = CHR ''.''
         \<and> is_digit g \<and> is_digit h \<and> is_digit i \<and> is_digit j
      then Some (Date_UTC (int (digits_val [g, h, i, j])) (int (digits_val [d, e]) - 1)
                   (int (digits_val [a, b])))
      else extractFirstDate (b # c # d # e # f # g # h # i # j # rest))"
| "extractFirstDate _ = None"

section \<open>ISO week\<close>

text \<open>
  \<open>isoWeek\<close>, statement by statement. The two time values subtracted are both midnights,
  so the division by 86400000 is exact, and \<open>Math.ceil\<close> of a quotient by 7 of an
  integer is the integer ceiling.
\<close>

definition isoWeek :: "Date \<Rightarrow> int \<times> int" where
  "isoWeek date =
     (let temp0 = Date_UTC (getUTCFullYear date) (getUTCMonth date) (getUTCDate date);
          dayNum = (if getUTCDay temp0 = 0 then 7 else getUTCDay temp0);
          temp = setUTCDate temp0 (getUTCDate temp0 + 4 - dayNum);
          startOfYear = Date_UTC (getUTCFullYear temp) 0 1;
          week = - ((- ((temp - startOfYear) div 86400000 + 1)) div 7)
      in (getUTCFullYear temp, week))"

text \<open>
  The week of the specification, in its words: number the day of the week from Monday = 1
  to Sunday = 7, shift the day by 4 minus that number to the Thursday of its week, take
  the year of the shifted day as the ISO year and the ceiling of (days since January 1
  of that year + 1) / 7 as the week.
\<close>

definition isoWeek_spec :: "Date \<Rightarrow> int \<times> int" where
  "isoWeek_spec date =
     (let d = Day date;
          dayNumber = (d + 3) mod 7 + 1;
          thursday = d + (4 - dayNumber);
          isoYear = YearFromDay thursday;
          daysSinceJan1 = thursday - DayFromYear isoYear
      in (isoYear, \<lceil>(of_int daysSinceJan1 + 1) / (7::rat)\<rceil>))"

section \<open>Decimal rendering\<close>

text \<open>\<open>String(n)\<close> for an integer, and \<open>padStart(w, "0")\<close>.\<close>

definition digit_char :: "nat \<Rightarrow> char" where
  "digit_char n = char_of (48 + n)"

fun show_nat :: "nat \<Rightarrow> string" where
  "show_nat n = (if n < 10 then [digit_char n] else show_nat (n div 10) @ [digit_char (n mod 10)])"

declare show_nat.simps [simp del]

definition show_int :: "int \<Rightarrow> string" where
  "show_int i = (if i < 0 then CHR ''-'' # show_nat (nat (- i)) else show_nat (nat i))"

definition padStart :: "nat \<Rightarrow> string \<Rightarrow> string" where
  "padStart w s = replicate (w - length s) (CHR ''0'') @ s"

text \<open>
  \<open>date.toISOString().slice(0, 10)\<close>. The year is written with four digits from 0 to
  9999 and with a sign and six digits otherwise; the first ten code units are then the
  year, the month and, for a four-digit year, the day.
\<close>

definition formatIsoDate :: "Date \<Rightarrow> string" where
  "formatIsoDate t =
     (let y = getUTCFullYear t;
          yearPart = (if 0 \<le> y \<and> y \<le> 9999 then padStart 4 (show_nat (nat y))
                      else (if y < 0 then CHR ''-'' else CHR ''+'') # padStart 6 (show_nat (nat \<bar>y\<bar>)))
      in take 10 (yearPart @ ''-'' @ padStart 2 (show_nat (nat (getUTCMonth t + 1)))
                   @ ''-'' @ padStart 2 (show_nat (nat (getUTCDate t)))))"

section \<open>Menu page extractor\<close>

record DayMenu =
  date :: string
  label :: string
  categories :: "MealCategory list"

text \<open>
  The document, as the queries of \<open>parseMenuPage\<close> see it. A child node of a dish
  column is an \<open>h3\<close> element (with its text), an element of class \<open>item\<close> that is not an
  \<open>h3\<close>, or anything else (text, comments, other elements). A dish row is the list of
  its \<open>.col-md-6\<close> children, each the list of its child nodes. A week container
  (\<open>.box-speiseplan .block-space\<close>) has the text of its first \<open>h2\<close>, the texts of its
  \<open>.week .day\<close> elements, its \<open>.dishes .row.list-dish\<close> rows, and the reading of the
  clock taken when it is processed (\<open>new Date()\<close>). The legend is seen through three
  queries: whether an \<open>h3\<close> starting with the legend title exists, whether a \<open>.row\<close>
  follows it, and the texts of that row's \<open>.col-sm-4\<close> elements.
\<close>

datatype ColumnNode = H3 string | Item ItemFragment | OtherNode

type_synonym DishRow = "ColumnNode list list"

record Block =
  h2_text :: string
  dayNodes :: "string list"
  dishRows :: "DishRow list"
  clock :: Date

record Page =
  blocks :: "Block list"
  legend_heading :: bool
  legend_row :: bool
  legend_columns :: "string list"

text \<open>
  \<open>parseDishRow\<close>. The category that \<open>current\<close> points to is always the last one of
  \<open>categories\<close>, so the state of the loop is the list and whether \<open>current\<close> is set; a
  new column resets \<open>current\<close>.
\<close>

fun parse_node :: "MealCategory list \<times> bool \<Rightarrow> ColumnNode \<Rightarrow> MealCategory list \<times> bool" where
  "parse_node (cats, cur) (H3 t) = (cats @ [\<lparr>cat_title = cleanText t, meals = []\<rparr>], True)"
| "parse_node (cats, cur) (Item item) =
     (if \<not> cur then (cats @ [\<lparr>cat_title = ''Uncategorized'', meals = [parseMeal item]\<rparr>], True)
      else (butlast cats @ [(last cats)\<lparr>meals := meals (last cats) @ [parseMeal item]\<rparr>], True))"
| "parse_node (cats, cur) OtherNode = (cats, cur)"

definition parse_column :: "MealCategory list \<Rightarrow> ColumnNode list \<Rightarrow> MealCategory list" where
  "parse_column cats nodes = fst (foldl parse_node (cats, False) nodes)"

definition parseDishRow :: "DishRow \<Rightarrow> MealCategory list" where
  "parseDishRow row = filter (\<lambda>c. length (meals c) > 0) (foldl parse_column [] row)"

text \<open>
  A JavaScript object with string keys (\<open>Record<string, V>\<close>) is the list of its own
  properties in the order in which \<open>Object.keys\<close>, \<open>Object.entries\<close> and
  \<open>JSON.stringify\<close> enumerate them: first the keys that are array indices (the
  canonical decimal numerals below 2^32 - 1), in ascending numeric order, then all
  other keys in the order of their creation. Assigning to an existing key keeps its
  place. Assigning to the key \<open>__proto__\<close> creates no property.
\<close>

type_synonym 'v obj = "(string \<times> 'v) list"

definition is_array_index :: "string \<Rightarrow> bool" where
  "is_array_index k =
     (k \<noteq> [] \<and> list_all is_digit k \<and> (k = ''0'' \<or> hd k \<noteq> CHR ''0'') \<and>
      int (digits_val k) < 4294967295)"

fun insert_index :: "string \<Rightarrow> 'v \<Rightarrow> 'v obj \<Rightarrow> 'v obj" where
  "insert_index k v [] = [(k, v)]"
| "insert_index k v ((k', v') # rest) =
     (if is_array_index k' \<and> digits_val k' < digits_val k
      then (k', v') # insert_index k v rest
      else (k, v) # (k', v') # rest)"

definition obj_set :: "'v obj \<Rightarrow> string \<Rightarrow> 'v \<Rightarrow> 'v obj" where
  "obj_set ob k v =
     (if k = ''__proto__'' then ob
      else if k \<in> set (map fst ob) then map (\<lambda>(k', v'). if k' = k then (k', v) else (k', v')) ob
      else if is_array_index k then insert_index k v ob
      else ob @ [(k, v)])"

definition obj_get :: "'v obj \<Rightarrow> string \<Rightarrow> 'v option" where
  "obj_get ob k = map_of ob k"

section \<open>Legend parser\<close>

text \<open>
  A regular expression with two groups and the flag \<open>g\<close> is its matcher and its
  \<open>lastIndex\<close>. The matcher takes the subject and the index to start from and gives, for
  the leftmost match from there, the index behind the match and the two groups.
\<close>

type_synonym matcher = "string \<Rightarrow> nat \<Rightarrow> (nat \<times> string \<times> string) option"

record RegExp =
  source :: matcher
  lastIndex :: nat

text \<open>
  The loop \<open>while ((match = regex.exec(body)) !== null)\<close>, from the \<open>lastIndex\<close> \<open>i\<close> of
  the regular expression, with its body \<open>add_entry\<close>. \<open>exec\<close> leaves \<open>lastIndex\<close> behind the match; a match that
  does not move it (an empty match) is found again and again, so the loop does not
  return, which is the value \<open>None\<close>.
\<close>

definition add_entry :: "string obj \<Rightarrow> string \<Rightarrow> string \<Rightarrow> string obj" where
  "add_entry entries g1 g2 =
     (let key = cleanText g1;
          v = cleanText g2;
          val = (if v \<noteq> [] \<and> last v = CHR ''.'' then butlast v else v)
      in if key \<noteq> [] then obj_set entries key val else entries)"

function exec_loop :: "matcher \<Rightarrow> string \<Rightarrow> nat \<Rightarrow> string obj \<Rightarrow> string obj option" where
  "exec_loop m body i entries =
     (case (if i \<le> length body then m body i else None) of
        None \<Rightarrow> Some entries
      | Some (e, g1, g2) \<Rightarrow>
          if i < e \<and> e \<le> length body
          then exec_loop m body e (add_entry entries g1 g2)
          else None)"
  by pat_completeness auto
termination
  by (relation "measure (\<lambda>(m, body, i, entries). length body - i)") auto

declare exec_loop.simps [simp del]

text \<open>\<open>text.includes(":") ? text.slice(text.indexOf(":") + 1) : text\<close>.\<close>

definition legend_body :: "string \<Rightarrow> string" where
  "legend_body t =
     (if CHR '':'' \<in> set t then drop 1 (dropWhile (\<lambda>c. c \<noteq> CHR '':'') t) else t)"

text \<open>
  \<open>parseLegendEntries\<close> returns the entries, or does not return; the second component is
  the pattern object after the call. The loop runs on a fresh regular expression built
  from the pattern's source, so the pattern itself is not touched.
\<close>

definition parseLegendEntries :: "string \<Rightarrow> RegExp \<Rightarrow> string obj option \<times> RegExp" where
  "parseLegendEntries t pattern =
     (let body = legend_body t;
          regex = \<lparr>source = source pattern, lastIndex = 0\<rparr>
      in (exec_loop (source regex) body (lastIndex regex) [], pattern))"

text \<open>
  The three patterns of \<open>parseLegend\<close> differ in the key only; all end in
  \<open>\)\s*([^,]+?)(?:(?:,|\.)\s|$)\<close>. The key is matched in one way at most, since a
  closing parenthesis must follow it.
\<close>

definition is_upper :: "char \<Rightarrow> bool" where
  "is_upper c = ((65::nat) \<le> of_char c \<and> of_char c \<le> (90::nat))"

definition is_lower :: "char \<Rightarrow> bool" where
  "is_lower c = ((97::nat) \<le> of_char c \<and> of_char c \<le> (122::nat))"

text \<open>\<open>\(([A-Z]{1,2})\)\<close>, \<open>([a-z]\d?)\)\<close> and \<open>(\d{1,2})\)\<close> at the start of a string:
  the key and the rest behind the parenthesis.\<close>

fun key_info :: "string \<Rightarrow> (string \<times> string) option" where
  "key_info (p # a # b # q # r) =
     (if p = CHR ''('' \<and> is_upper a \<and> is_upper b \<and> q = CHR '')'' then Some ([a, b], r)
      else if p = CHR ''('' \<and> is_upper a \<and> b = CHR '')'' then Some ([a], q # r)
      else None)"
| "key_info [p, a, b] =
     (if p = CHR ''('' \<and> is_upper a \<and> b = CHR '')'' then Some ([a], []) else None)"
| "key_info _ = None"

fun key_allergen :: "string \<Rightarrow> (string \<times> string) option" where
  "key_allergen (a # b # c # r) =
     (if is_lower a \<and> is_digit b \<and> c = CHR '')'' then Some ([a, b], r)
      else if is_lower a \<and> b = CHR '')'' then Some ([a], c # r)
      else None)"
| "key_allergen [a, b] = (if is_lower a \<and> b = CHR '')'' then Some ([a], []) else None)"
| "key_allergen _ = None"

fun key_additive :: "string \<Rightarrow> (string \<times> string) option" where
  "key_additive (a # b # c # r) =
     (if is_digit a \<and> is_digit b \<and> c = CHR '')'' then Some ([a, b], r)
      else if is_digit a \<and> b = CHR '')'' then Some ([a], c # r)
      else None)"
| "key_additive [a, b] = (if is_digit a \<and> b = CHR '')'' then Some ([a], []) else None)"
| "key_additive _ = None"

text \<open>\<open>(?:(?:,|\.)\s|$)\<close> at the start of a string: the rest behind it.\<close>

fun terminator :: "string \<Rightarrow> string option" where
  "terminator [] = Some []"
| "terminator [x] = None"
| "terminator (x # y # r) =
     (if (x = CHR '','' \<or> x = CHR ''.'') \<and> is_space y then Some r else None)"

text \<open>The lazy group \<open>([^,]+?)\<close> followed by the terminator: the shortest run of at
  least one code unit, none a comma, behind which the terminator matches.\<close>

fun lazy_group :: "string \<Rightarrow> (string \<times> string) option" where
  "lazy_group [] = None"
| "lazy_group (c # cs) =
     (if c = CHR '','' then None
      else (case terminator cs of
              Some r \<Rightarrow> Some ([c], r)
            | None \<Rightarrow> (case lazy_group cs of
                         Some (g, r) \<Rightarrow> Some (c # g, r)
                       | None \<Rightarrow> None)))"

text \<open>The greedy \<open>\s*\<close> before the group: all the white space first, then one code
  unit less at a time.\<close>

fun tail_try :: "nat \<Rightarrow> string \<Rightarrow> (string \<times> string) option" where
  "tail_try k s =
     (case lazy_group (drop k s) of
        Some r \<Rightarrow> Some r
      | None \<Rightarrow> (case k of 0 \<Rightarrow> None | Suc k' \<Rightarrow> tail_try k' s))"

definition match_here ::
  "(string \<Rightarrow> (string \<times> string) option) \<Rightarrow> string \<Rightarrow> (string \<times> string \<times> string) option" where
  "match_here key s =
     (case key s of
        None \<Rightarrow> None
      | Some (k, r) \<Rightarrow>
          (case tail_try (length (takeWhile is_space r)) r of
             None \<Rightarrow> None
           | Some (v, rest) \<Rightarrow> Some (k, v, rest)))"

fun search :: "(string \<Rightarrow> (string \<times> string) option) \<Rightarrow> string \<Rightarrow> (string \<times> string \<times> string) option" where
  "search key [] = None"
| "search key (c # cs) =
     (case match_here key (c # cs) of Some r \<Rightarrow> Some r | None \<Rightarrow> search key cs)"

definition matcher_of :: "(string \<Rightarrow> (string \<times> string) option) \<Rightarrow> matcher" where
  "matcher_of key body i =
     (case search key (drop i body) of
        None \<Rightarrow> None
      | Some (k, v, rest) \<Rightarrow> Some (length body - length rest, k, v))"

definition legend_pattern :: "(string \<Rightarrow> (string \<times> string) option) \<Rightarrow> RegExp" where
  "legend_pattern key = \<lparr>source = matcher_of key, lastIndex = 0\<rparr>"

text \<open>A key matcher consumes when the rest it returns is shorter than its input.\<close>

definition consumes :: "(string \<Rightarrow> (string \<times> string) option) \<Rightarrow> bool" where
  "consumes key = (\<forall>s k r. key s = Some (k, r) \<longrightarrow> length r < length s)"

record Legend =
  info :: "string obj"
  allergen_codes :: "string obj"
  additives :: "string obj"

text \<open>\<open>$(columns.get(i)).text()\<close>: the empty string when there is no such column.\<close>

definition column_text :: "string list \<Rightarrow> nat \<Rightarrow> string" where
  "column_text cols i = (if i < length cols then cols ! i else [])"

text \<open>\<open>parseLegend\<close>. The outer \<open>None\<close> stands for a call that does not return, the
  inner one for the result \<open>null\<close>.\<close>

definition parseLegend :: "Page \<Rightarrow> Legend option option" where
  "parseLegend page =
     (if \<not> legend_heading page then Some None
      else if \<not> legend_row page then Some None
      else if length (legend_columns page) = 0 then Some None
      else (let infoText = cleanText (column_text (legend_columns page) 0);
                allergensText = cleanText (column_text (legend_columns page) 1);
                additivesText = cleanText (column_text (legend_columns page) 2)
            in case fst (parseLegendEntries infoText (legend_pattern key_info)) of
                 None \<Rightarrow> None
               | Some i \<Rightarrow>
                   (case fst (parseLegendEntries allergensText (legend_pattern key_allergen)) of
                      None \<Rightarrow> None
                    | Some a \<Rightarrow>
                        (case fst (parseLegendEntries additivesText (legend_pattern key_additive)) of
                           None \<Rightarrow> None
                         | Some d \<Rightarrow> Some (Some \<lparr>info = i, allergen_codes = a, additives = d\<rparr>)))))"

section \<open>The loop of the menu page extractor\<close>

record ParsedMenu =
  days :: "DayMenu list"
  legend :: "Legend option"

datatype warning = CountMismatch nat nat

text \<open>
  The loop over the dish rows of one container, from the index \<open>index\<close>. The label is
  the text of \<open>dayNodes[index]\<close>, and the empty string when there is no such element.
  An unparsed label throws, which ends the whole extraction.
\<close>

fun parse_rows ::
  "Date \<Rightarrow> Date option \<Rightarrow> string list \<Rightarrow> nat \<Rightarrow> DishRow list \<Rightarrow> error + DayMenu list" where
  "parse_rows startDate previous nodes index [] = Inr []"
| "parse_rows startDate previous nodes index (row # rows) =
     (let lbl = cleanText (column_text nodes index)
      in case resolveDayDate lbl startDate previous of
           Inl e \<Rightarrow> Inl e
         | Inr resolvedDate \<Rightarrow>
             (let isoDate = formatIsoDate resolvedDate;
                  cats = parseDishRow row
              in case parse_rows startDate (Some resolvedDate) nodes (index + 1) rows of
                   Inl e \<Rightarrow> Inl e
                 | Inr rest \<Rightarrow> Inr (\<lparr>date = isoDate, label = lbl, categories = cats\<rparr> # rest)))"

definition parse_block :: "Block \<Rightarrow> warning list \<times> (error + DayMenu list)" where
  "parse_block b =
     (let heading = cleanText (h2_text b);
          startDate = (case extractFirstDate heading of Some d \<Rightarrow> d | None \<Rightarrow> clock b);
          warnings = (if length (dayNodes b) \<noteq> length (dishRows b)
                      then [CountMismatch (length (dayNodes b)) (length (dishRows b))] else [])
      in (warnings, parse_rows startDate None (dayNodes b) 0 (dishRows b)))"

text \<open>\<open>blocks.each\<close>: the containers in document order; the first throw ends the loop.
  The warnings printed up to then stay printed.\<close>

fun parse_blocks :: "Block list \<Rightarrow> warning list \<times> (error + DayMenu list)" where
  "parse_blocks [] = ([], Inr [])"
| "parse_blocks (b # bs) =
     (case parse_block b of
        (w, Inl e) \<Rightarrow> (w, Inl e)
      | (w, Inr ds) \<Rightarrow>
          (case parse_blocks bs of
             (w', Inl e) \<Rightarrow> (w @ w', Inl e)
           | (w', Inr ds') \<Rightarrow> (w @ w', Inr (ds @ ds'))))"

text \<open>\<open>parseMenuPage\<close>: the warnings printed, and the menu returned or the error
  thrown; \<open>None\<close> when the call does not return.\<close>

definition parseMenuPage :: "Page \<Rightarrow> (warning list \<times> (error + ParsedMenu)) option" where
  "parseMenuPage page =
     (if length (blocks page) = 0 then Some ([], Inl NoSpeiseplanContainer)
      else (case parse_blocks (blocks page) of
              (w, Inl e) \<Rightarrow> Some (w, Inl e)
            | (w, Inr ds) \<Rightarrow>
                (case parseLegend page of
                   None \<Rightarrow> None
                 | Some lg \<Rightarrow> Some (w, Inr \<lparr>days = ds, legend = lg\<rparr>))))"

section \<open>Week partitioner\<close>

text \<open>
  Strings are compared as JavaScript compares them with \<open><\<close> and \<open>></\<close> and as
  \<open>Array.prototype.sort\<close> without a comparator does: code unit by code unit, which is
  the lexicographic order of \<^typ>\<open>string\<close>. \<open>a.localeCompare(b)\<close> is modelled on the
  strings the scraper sorts with it, ISO dates of one shape (digits and hyphens at fixed
  places), where the locale's collation orders as the code units do.
\<close>

definition localeCompare :: "string \<Rightarrow> string \<Rightarrow> int" where
  "localeCompare a b = (if a < b then - 1 else if a = b then 0 else 1)"

text \<open>
  \<open>array.sort(comparefn)\<close> is a stable sort; it is modelled as the insertion sort that
  puts an element before the first later one it does not compare greater than. (With
  an inconsistent comparator the order is implementation-defined, and this is one of
  the orders allowed.)
\<close>

fun insert_sorted :: "('a \<Rightarrow> 'a \<Rightarrow> int) \<Rightarrow> 'a \<Rightarrow> 'a list \<Rightarrow> 'a list" where
  "insert_sorted cmp x [] = [x]"
| "insert_sorted cmp x (y # ys) =
     (if cmp x y \<le> 0 then x # y # ys else y # insert_sorted cmp x ys)"

definition array_sort :: "('a \<Rightarrow> 'a \<Rightarrow> int) \<Rightarrow> 'a list \<Rightarrow> 'a list" where
  "array_sort cmp xs = foldr (insert_sorted cmp) xs []"

text \<open>A number that may be \<open>NaN\<close>: the year and the week of an invalid date are.\<close>

datatype jsnum = NaN | Num int

definition String_of :: "jsnum \<Rightarrow> string" where
  "String_of n = (case n of NaN \<Rightarrow> ''NaN'' | Num i \<Rightarrow> show_int i)"

definition js_minus :: "jsnum \<Rightarrow> jsnum \<Rightarrow> jsnum" where
  "js_minus a b = (case (a, b) of (Num x, Num y) \<Rightarrow> Num (x - y) | _ \<Rightarrow> NaN)"

text \<open>\<open>a === b\<close> on numbers: \<open>NaN\<close> is not equal to itself.\<close>

definition js_strict_eq :: "jsnum \<Rightarrow> jsnum \<Rightarrow> bool" where
  "js_strict_eq a b = (a \<noteq> NaN \<and> a = b)"

text \<open>The sort reads a comparator result \<open>NaN\<close> as 0.\<close>

definition comparator_result :: "jsnum \<Rightarrow> int" where
  "comparator_result n = (case n of NaN \<Rightarrow> 0 | Num i \<Rightarrow> i)"

text \<open>\<open>isoWeek\<close> of a date that may be invalid (\<open>None\<close>).\<close>

definition isoWeek_of :: "Date option \<Rightarrow> jsnum \<times> jsnum" where
  "isoWeek_of d = (case d of None \<Rightarrow> (NaN, NaN) | Some t \<Rightarrow> (Num (fst (isoWeek t)), Num (snd (isoWeek t))))"

definition weekKey :: "jsnum \<Rightarrow> jsnum \<Rightarrow> string" where
  "weekKey year week = String_of year @ ''-W'' @ padStart 2 (String_of week)"

record WeekPartition =
  p_isoYear :: jsnum
  p_isoWeek :: jsnum
  p_from :: string
  p_to :: string
  p_days :: "DayMenu list"

text \<open>A \<open>Map\<close> with string keys: its entries in insertion order; setting an existing key
  keeps its place.\<close>

type_synonym 'v jsmap = "(string \<times> 'v) list"

definition map_has :: "'v jsmap \<Rightarrow> string \<Rightarrow> bool" where
  "map_has m k = (k \<in> set (map fst m))"

definition map_set :: "'v jsmap \<Rightarrow> string \<Rightarrow> 'v \<Rightarrow> 'v jsmap" where
  "map_set m k v =
     (if map_has m k then map (\<lambda>(k', v'). if k' = k then (k', v) else (k', v')) m
      else m @ [(k, v)])"

text \<open>
  The constructor \<open>new Date(string)\<close> is a parameter of the partitioner: \<open>parse\<close> gives the
  time value, or \<open>None\<close> for an invalid date. One pass of the first loop of
  \<open>groupByWeek\<close>; the partition object is changed in place, which is a new value under
  its key.
\<close>

definition day_key :: "(string \<Rightarrow> Date option) \<Rightarrow> DayMenu \<Rightarrow> string" where
  "day_key parse day =
     (let (year, week) = isoWeek_of (parse (date day @ ''T00:00:00Z'')) in weekKey year week)"

definition group_step ::
  "(string \<Rightarrow> Date option) \<Rightarrow> WeekPartition jsmap \<Rightarrow> DayMenu \<Rightarrow> WeekPartition jsmap" where
  "group_step parse byWeek day =
     (let (year, week) = isoWeek_of (parse (date day @ ''T00:00:00Z''));
          key = weekKey year week;
          byWeek1 = (if \<not> map_has byWeek key
                     then map_set byWeek key
                            \<lparr>p_isoYear = year, p_isoWeek = week, p_from = date day,
                             p_to = date day, p_days = []\<rparr>
                     else byWeek)
      in case map_of byWeek1 key of
           None \<Rightarrow> byWeek1
         | Some part \<Rightarrow>
             map_set byWeek1 key
               (part\<lparr>p_days := p_days part @ [day],
                  p_from := (if date day < p_from part then date day else p_from part),
                  p_to := (if date day > p_to part then date day else p_to part)\<rparr>))"

definition partition_compare :: "WeekPartition \<Rightarrow> WeekPartition \<Rightarrow> int" where
  "partition_compare a b =
     comparator_result
       (if js_strict_eq (p_isoYear a) (p_isoYear b) then js_minus (p_isoWeek a) (p_isoWeek b)
        else js_minus (p_isoYear a) (p_isoYear b))"

definition groupByWeek :: "(string \<Rightarrow> Date option) \<Rightarrow> DayMenu list \<Rightarrow> WeekPartition list" where
  "groupByWeek parse ds =
     (let byWeek = foldl (group_step parse) [] ds;
          sorted_days = map (\<lambda>(k, p). p\<lparr>p_days :=
                               array_sort (\<lambda>a b. localeCompare (date a) (date b)) (p_days p)\<rparr>) byWeek
      in array_sort partition_compare sorted_days)"

text \<open>
  The constructor on the strings the pipeline gives it: \<open>YYYY-MM-DDT00:00:00Z\<close> with a
  month from 01 to 12 and a day of that month. Every other string is \<open>None\<close> here.
\<close>

definition days_in_month :: "int \<Rightarrow> int \<Rightarrow> int" where
  "days_in_month y m = (if m = 2 then (if InLeapYear y then 29 else 28) else month_days m)"

definition parse_iso_date :: "string \<Rightarrow> Date option" where
  "parse_iso_date s =
     (let y = int (digits_val (take 4 s)); m = int (digits_val (take 2 (drop 5 s)));
          d = int (digits_val (take 2 (drop 8 s)))
      in if length s = 20 \<and> list_all is_digit (take 4 s @ take 2 (drop 5 s) @ take 2 (drop 8 s))
            \<and> s ! 4 = CHR ''-'' \<and> s ! 7 = CHR ''-'' \<and> drop 10 s = ''T00:00:00Z''
            \<and> 1 \<le> m \<and> m \<le> 12 \<and> 1 \<le> d \<and> d \<le> days_in_month y m
         then Some (MakeDay y (m - 1) d * msPerDay) else None)"

section \<open>Aggregator\<close>

record WeekId =
  w_isoYear :: jsnum
  w_isoWeek :: jsnum
  w_from :: string
  w_to :: string

record DayDetails =
  dd_label :: string
  dd_categories :: "MealCategory list"

record CanteenWeek =
  c_name :: string
  c_sourceUrl :: string
  c_legend :: "Legend option"
  c_days :: "DayDetails obj"

record OutputWeek =
  week :: WeekId
  generatedAt :: string
  canteens :: "CanteenWeek obj"

record CanteenDay =
  cd_name :: string
  cd_sourceUrl :: string
  cd_legend :: "Legend option"
  cd_categories :: "MealCategory list"

record DayGrouped =
  g_label :: string
  g_canteens :: "CanteenDay obj"

record DayGroupedWeek =
  dg_week :: WeekId
  dg_generatedAt :: string
  dg_days :: "DayGrouped obj"

definition convertDaysToMap :: "DayMenu list \<Rightarrow> DayDetails obj" where
  "convertDaysToMap ds =
     foldl (\<lambda>m day. obj_set m (date day) \<lparr>dd_label = label day, dd_categories = categories day\<rparr>) [] ds"

text \<open>
  The names every object inherits from \<open>Object.prototype\<close>. Reading
  \<open>dayAccumulator[date]\<close> for such a name finds the inherited value, which is truthy
  and has no property \<open>canteens\<close>, so the assignment to \<open>.canteens[slug]\<close> throws a
  TypeError.
\<close>

definition prototype_names :: "string list" where
  "prototype_names =
     [''constructor'', ''__defineGetter__'', ''__defineSetter__'', ''hasOwnProperty'',
      ''__lookupGetter__'', ''__lookupSetter__'', ''isPrototypeOf'', ''propertyIsEnumerable'',
      ''toString'', ''valueOf'', ''__proto__'', ''toLocaleString'']"

datatype type_error = TypeError

text \<open>The body of the inner loop of \<open>buildDayGroupedWeek\<close>, for one canteen and one of
  its days.\<close>

definition accumulate_day ::
  "string \<Rightarrow> CanteenWeek \<Rightarrow> DayGrouped obj \<Rightarrow> string \<times> DayDetails \<Rightarrow> type_error + DayGrouped obj" where
  "accumulate_day slug canteen acc entry =
     (let (dt, day) = entry
      in if dt \<in> set prototype_names then Inl TypeError
         else (let acc1 = (if obj_get acc dt = None
                           then obj_set acc dt \<lparr>g_label = dd_label day, g_canteens = []\<rparr>
                           else acc)
               in case obj_get acc1 dt of
                    None \<Rightarrow> Inr acc1
                  | Some e \<Rightarrow>
                      Inr (obj_set acc1 dt
                             (e\<lparr>g_canteens := obj_set (g_canteens e) slug
                                  \<lparr>cd_name = c_name canteen, cd_sourceUrl = c_sourceUrl canteen,
                                   cd_legend = c_legend canteen,
                                   cd_categories = dd_categories day\<rparr>\<rparr>))))"

fun accumulate_days ::
  "string \<Rightarrow> CanteenWeek \<Rightarrow> DayGrouped obj \<Rightarrow> (string \<times> DayDetails) list \<Rightarrow> type_error + DayGrouped obj" where
  "accumulate_days slug canteen acc [] = Inr acc"
| "accumulate_days slug canteen acc (entry # entries) =
     (case accumulate_day slug canteen acc entry of
        Inl e \<Rightarrow> Inl e
      | Inr acc' \<Rightarrow> accumulate_days slug canteen acc' entries)"

fun accumulate_canteens ::
  "DayGrouped obj \<Rightarrow> (string \<times> CanteenWeek) list \<Rightarrow> type_error + DayGrouped obj" where
  "accumulate_canteens acc [] = Inr acc"
| "accumulate_canteens acc ((slug, canteen) # rest) =
     (case accumulate_days slug canteen acc (c_days canteen) of
        Inl e \<Rightarrow> Inl e
      | Inr acc' \<Rightarrow> accumulate_canteens acc' rest)"

text \<open>The second loop: the dates in sorted order, the canteens of each date in sorted
  order, each assigned to a fresh object.\<close>

definition ordered_canteens :: "CanteenDay obj \<Rightarrow> CanteenDay obj" where
  "ordered_canteens cs =
     foldl (\<lambda>ob slug. case obj_get cs slug of Some c \<Rightarrow> obj_set ob slug c | None \<Rightarrow> ob)
       [] (sort (map fst cs))"

definition ordered_days :: "DayGrouped obj \<Rightarrow> DayGrouped obj" where
  "ordered_days acc =
     foldl (\<lambda>ob dt. case obj_get acc dt of
                        Some day \<Rightarrow> obj_set ob dt
                          \<lparr>g_label = g_label day, g_canteens = ordered_canteens (g_canteens day)\<rparr>
                      | None \<Rightarrow> ob)
       [] (sort (map fst acc))"

definition buildDayGroupedWeek :: "OutputWeek \<Rightarrow> type_error + DayGroupedWeek" where
  "buildDayGroupedWeek src =
     (case accumulate_canteens [] (canteens src) of
        Inl e \<Rightarrow> Inl e
      | Inr dayAccumulator \<Rightarrow>
          Inr \<lparr>dg_week = week src, dg_generatedAt = generatedAt src,
               dg_days = ordered_days dayAccumulator\<rparr>)"

text \<open>The label of the first canteen, in the enumeration order of \<open>canteens\<close>, that
  has the date among its days.\<close>

fun first_label :: "CanteenWeek obj \<Rightarrow> string \<Rightarrow> string option" where
  "first_label [] dt = None"
| "first_label ((slug, c) # cs) dt =
     (case obj_get (c_days c) dt of Some day \<Rightarrow> Some (dd_label day) | None \<Rightarrow> first_label cs dt)"

text \<open>The label under a date of the accumulator, if any.\<close>

definition label_in :: "DayGrouped obj \<Rightarrow> string \<Rightarrow> string option" where
  "label_in acc dt = map_option g_label (obj_get acc dt)"

text \<open>No date of the week document is a name inherited from \<open>Object.prototype\<close>.\<close>

definition plain_dates :: "OutputWeek \<Rightarrow> bool" where
  "plain_dates src =
     list_all (\<lambda>(slug, c). list_all (\<lambda>(dt, day). dt \<notin> set prototype_names) (c_days c))
       (canteens src)"

text \<open>The labels that the loop over a container reads: one for each dish row, the text
  of the day element at the row's index, empty where there is none.\<close>

definition labels_from :: "string list \<Rightarrow> nat \<Rightarrow> nat \<Rightarrow> string list" where
  "labels_from nodes i n = map (\<lambda>j. cleanText (column_text nodes j)) [i..<i + n]"



section \<open>Example inputs\<close>

definition item_of_price :: "string \<Rightarrow> ItemFragment" where
  "item_of_price p =
     \<lparr>heading_text = ''Eintopf'', small_text = ''(a,g)'', price_text = p, item_tip = False\<rparr>"

definition new_year_week_before :: "string list" where
  "new_year_week_before = [''So 29.12.'', ''Mo 30.12.'', ''Di 31.12.'']"

definition new_year_week_after :: "string list" where
  "new_year_week_after = [''Mi 01.01.'', ''Do 02.01.'']"

text \<open>A week container with one day label and two dish rows, and one with three day
  labels and two dish rows.\<close>

definition dish_row :: DishRow where
  "dish_row = [[H3 ''Aktion'', Item (item_of_price ''1,80 / 2,80''), OtherNode],
               [Item (item_of_price []), H3 ''Dessert'', Item (item_of_price ''0,90'')]]"

definition page_fewer_labels :: Page where
  "page_fewer_labels =
     \<lparr>blocks = [\<lparr>h2_text = ''Speiseplan 06.01.2025 - 10.01.2025'', dayNodes = [''Mo 06.01.''],
                 dishRows = [dish_row, dish_row], clock = 0\<rparr>],
      legend_heading = False, legend_row = False, legend_columns = []\<rparr>"

definition page_more_labels :: Page where
  "page_more_labels =
     \<lparr>blocks = [\<lparr>h2_text = ''Speiseplan 06.01.2025 - 10.01.2025'',
                 dayNodes = [''Mo 06.01.'', ''Di 07.01.'', ''Mi 08.01.''],
                 dishRows = [dish_row, []], clock = 0\<rparr>],
      legend_heading = False, legend_row = False, legend_columns = []\<rparr>"

text \<open>A week document in which two canteens record the same date under different
  labels, and one whose canteen slugs are numerals.\<close>

definition canteen_week :: "string \<Rightarrow> (string \<times> string) list \<Rightarrow> CanteenWeek" where
  "canteen_week n ds =
     \<lparr>c_name = n, c_sourceUrl = ''https://www.akafoe.de/'', c_legend = None,
      c_days = map (\<lambda>(dt, l). (dt, \<lparr>dd_label = l, dd_categories = []\<rparr>)) ds\<rparr>"

definition week_two :: WeekId where
  "week_two = \<lparr>w_isoYear = Num 2025, w_isoWeek = Num 2, w_from = ''2025-01-06'',
                w_to = ''2025-01-07''\<rparr>"

definition week_two_labels :: OutputWeek where
  "week_two_labels =
     \<lparr>week = week_two, generatedAt = ''2025-01-06T05:00:00.000Z'',
      canteens =
        [(''q-west'', canteen_week ''Q-West'' [(''2025-01-06'', ''Montag 06.01.'')]),
         (''main'', canteen_week ''Mensa''
            [(''2025-01-06'', ''Mo 06.01.''), (''2025-01-07'', ''Di 07.01.'')])]\<rparr>"


section \<open>Properties of the calendar arithmetic\<close>

text \<open>Division by a positive constant, one step at a time.\<close>

lemma div_bounds: "0 < (k::int) \<Longrightarrow> k * (a div k) \<le> a \<and> a < k * (a div k) + k"
  using mult_div_mod_eq [of k a] pos_mod_sign [of k a] pos_mod_bound [of k a] by linarith

lemma div_step:
  assumes k: "0 < (k::int)"
  shows "(a + 1) div k = a div k + (if (a + 1) mod k = 0 then 1 else 0)"
proof -
  define q r where "q = a div k" and "r = a mod k"
  have a: "a = k * q + r" and r: "0 \<le> r" "r < k"
    using k by (simp_all add: q_def r_def)
  show ?thesis
  proof (cases "r + 1 < k")
    case True
    have e: "a + 1 = k * q + (r + 1)" using a by simp
    have "(a + 1) div k = q"
      by (rule int_div_pos_eq [of _ _ _ "r + 1"]) (use e r True in simp_all)
    moreover have "(a + 1) mod k = r + 1"
      by (rule int_mod_pos_eq [of _ _ q]) (use e r True in simp_all)
    ultimately show ?thesis using r by (simp add: q_def)
  next
    case False
    then have rk: "r + 1 = k" using r by linarith
    have e: "a + 1 = k * (q + 1) + 0" using a rk by (simp add: algebra_simps)
    have "(a + 1) div k = q + 1"
      by (rule int_div_pos_eq [of _ _ _ 0]) (use e k in simp_all)
    moreover have "(a + 1) mod k = 0"
      by (rule int_mod_pos_eq [of _ _ "q + 1"]) (use e k in simp_all)
    ultimately show ?thesis by (simp add: q_def)
  qed
qed

lemma mod_shift: "((y::int) - k * c) mod k = y mod k"
  using mod_mult_self2 [of y k "- c"] by simp

lemma mod_400_100: "(y::int) mod 400 = 0 \<Longrightarrow> y mod 100 = 0"
proof -
  assume "y mod 400 = 0"
  then have "400 dvd y" by (simp add: mod_eq_0_iff_dvd)
  moreover have "(100::int) dvd 400" by simp
  ultimately have "100 dvd y" by (meson dvd_trans)
  then show ?thesis by simp
qed

lemma mod_100_4: "(y::int) mod 100 = 0 \<Longrightarrow> y mod 4 = 0"
proof -
  assume "y mod 100 = 0"
  then have "100 dvd y" by (simp add: mod_eq_0_iff_dvd)
  moreover have "(4::int) dvd 100" by simp
  ultimately have "4 dvd y" by (meson dvd_trans)
  then show ?thesis by simp
qed

lemma DayFromYear_Suc: "DayFromYear (y + 1) = DayFromYear y + DaysInYear y"
proof -
  define a b c where "a = (y - 1969) div 4" and "b = (y - 1901) div 100"
    and "c = (y - 1601) div 400"
  have s4: "(y - 1968) div 4 = a + (if y mod 4 = 0 then 1 else 0)"
    using div_step [of 4 "y - 1969"] mod_shift [of y 4 492] by (simp add: a_def)
  have s100: "(y - 1900) div 100 = b + (if y mod 100 = 0 then 1 else 0)"
    using div_step [of 100 "y - 1901"] mod_shift [of y 100 19] by (simp add: b_def)
  have s400: "(y - 1600) div 400 = c + (if y mod 400 = 0 then 1 else 0)"
    using div_step [of 400 "y - 1601"] mod_shift [of y 400 4] by (simp add: c_def)
  have L: "DayFromYear (y + 1) =
      365 * (y - 1969) + (a + (if y mod 4 = 0 then 1 else 0))
        - (b + (if y mod 100 = 0 then 1 else 0)) + (c + (if y mod 400 = 0 then 1 else 0))"
    by (simp add: DayFromYear_def s4 s100 s400)
  have R: "DayFromYear y = 365 * (y - 1970) + a - b + c"
    by (simp add: DayFromYear_def a_def b_def c_def)
  show ?thesis
  proof (cases "y mod 4 = 0")
    case False
    then have "y mod 100 \<noteq> 0" "y mod 400 \<noteq> 0"
      using mod_100_4 [of y] mod_400_100 [of y] by auto
    with False show ?thesis by (simp add: L R DaysInYear_def InLeapYear_def)
  next
    case True
    show ?thesis
    proof (cases "y mod 100 = 0")
      case False
      then have "y mod 400 \<noteq> 0" using mod_400_100 [of y] by auto
      with True False show ?thesis by (simp add: L R DaysInYear_def InLeapYear_def)
    next
      case h: True
      show ?thesis using True h by (cases "y mod 400 = 0") (simp_all add: L R DaysInYear_def InLeapYear_def)
    qed
  qed
qed

lemma DayFromYear_est:
  "400 * DayFromYear (1970 + k) \<le> 146097 * k + 590"
  "146097 * k - 506 \<le> 400 * DayFromYear (1970 + k)"
proof -
  define a b c where "a = (k + 1) div 4" and "b = (k + 69) div 100" and "c = (k + 369) div 400"
  have e: "DayFromYear (1970 + k) = 365 * k + a - b + c"
    by (simp add: DayFromYear_def a_def b_def c_def add.commute)
  have "4 * a \<le> k + 1" "k + 1 < 4 * a + 4" "100 * b \<le> k + 69" "k + 69 < 100 * b + 100"
    "400 * c \<le> k + 369" "k + 369 < 400 * c + 400"
    using div_bounds [of 4 "k + 1"] div_bounds [of 100 "k + 69"] div_bounds [of 400 "k + 369"]
    by (simp_all add: a_def b_def c_def)
  moreover have "400 * DayFromYear (1970 + k) = 146000 * k + 400 * a - 400 * b + 400 * c"
    by (simp add: e)
  ultimately show "400 * DayFromYear (1970 + k) \<le> 146097 * k + 590"
    and "146097 * k - 506 \<le> 400 * DayFromYear (1970 + k)"
    by linarith+
qed

lemma YearFromDay_lower: "DayFromYear (YearFromDay d) \<le> d"
proof -
  define q where "q = (400 * d) div 146097"
  have b: "146097 * q \<le> 400 * d" using div_bounds [of 146097 "400 * d"] by (simp add: q_def)
  have "146097 * (q - 1) = 146097 * q - 146097" by (simp add: algebra_simps)
  then have "400 * DayFromYear (1970 + (q - 1)) \<le> 400 * d"
    using DayFromYear_est(1) [of "q - 1"] b by linarith
  then have "DayFromYear (1970 + q - 1) \<le> d" by simp
  then show ?thesis
    by (simp add: YearFromDay_def Let_def q_def)
qed

lemma YearFromDay_upper: "d < DayFromYear (YearFromDay d + 1)"
proof -
  define q where "q = (400 * d) div 146097"
  have b: "400 * d < 146097 * q + 146097" using div_bounds [of 146097 "400 * d"] by (simp add: q_def)
  have "146097 * (q + 2) = 146097 * q + 292194" by (simp add: algebra_simps)
  then have "400 * d < 400 * DayFromYear (1970 + (q + 2))"
    using DayFromYear_est(2) [of "q + 2"] b by linarith
  then have "d < DayFromYear (1970 + q + 2)" by (simp add: add.assoc)
  then show ?thesis
    by (simp add: YearFromDay_def Let_def q_def)
qed

lemma DayFromYear_mono: "y \<le> y' \<Longrightarrow> DayFromYear y \<le> DayFromYear y'"
proof (induction y' rule: int_ge_induct)
  case base
  show ?case by simp
next
  case (step i)
  then show ?case using DayFromYear_Suc [of i] by (simp add: DaysInYear_def split: if_splits)
qed

lemma YearFromDay_eqI:
  assumes "DayFromYear y \<le> d" "d < DayFromYear (y + 1)"
  shows "YearFromDay d = y"
proof (rule ccontr)
  assume ne: "YearFromDay d \<noteq> y"
  show False
  proof (cases "YearFromDay d < y")
    case True
    then have "DayFromYear (YearFromDay d + 1) \<le> DayFromYear y"
      by (intro DayFromYear_mono) simp
    then show False using YearFromDay_upper [of d] assms by linarith
  next
    case False
    then have "DayFromYear (y + 1) \<le> DayFromYear (YearFromDay d)"
      using ne by (intro DayFromYear_mono) simp
    then show False using YearFromDay_lower [of d] assms by linarith
  qed
qed



lemma MonthFromDay_range: "0 \<le> MonthFromDay d \<and> MonthFromDay d \<le> 11"
  by (simp add: MonthFromDay_def Let_def)

lemma MakeDay_month_in_year:
  "0 \<le> m \<Longrightarrow> m \<le> 11 \<Longrightarrow> MakeDay y m dt = DayFromYear y + month_start (InLeapYear y) m + dt - 1"
  by (simp add: MakeDay_def Let_def)

lemma MakeDay_roundtrip: "MakeDay (YearFromDay d) (MonthFromDay d) (DateFromDay d) = d"
  using MonthFromDay_range [of d]
  by (simp add: MakeDay_month_in_year DateFromDay_def DayWithinYear_def)

lemma MakeDay_shift: "MakeDay y m (dt + k) = MakeDay y m dt + k"
  by (simp add: MakeDay_def Let_def)

lemma Day_mult [simp]: "Day (n * msPerDay) = n"
  by (simp add: Day_def msPerDay_def)

lemma Day_midnight_plus: "0 \<le> r \<Longrightarrow> r < msPerDay \<Longrightarrow> Day (n * msPerDay + r) = n"
  unfolding Day_def msPerDay_def
  by (rule int_div_pos_eq [of _ _ _ r]) simp_all

lemma mod_mult_msPerDay [simp]: "(n * msPerDay) mod msPerDay = 0"
  by simp

lemma DayWithinYear_range: "0 \<le> DayWithinYear d \<and> DayWithinYear d < DaysInYear (YearFromDay d)"
  using YearFromDay_lower [of d] YearFromDay_upper [of d] DayFromYear_Suc [of "YearFromDay d"]
  by (simp add: DayWithinYear_def)

lemma Date_UTC_plain:
  "\<not> two_digit_year y \<Longrightarrow> Date_UTC y m dt = MakeDay y m dt * msPerDay"
  by (simp add: Date_UTC_def MakeFullYear_def)

lemma MakeDay_january_first: "MakeDay y 0 1 = DayFromYear y"
  by (simp add: MakeDay_def month_start_def)

lemma mod_step:
  assumes k: "0 < (k::int)"
  shows "(a + 1) mod k = (if a mod k + 1 = k then 0 else a mod k + 1)"
proof -
  define q r where "q = a div k" and "r = a mod k"
  have a: "a = k * q + r" and r: "0 \<le> r" "r < k"
    using k by (simp_all add: q_def r_def)
  show ?thesis
  proof (cases "r + 1 = k")
    case True
    have e: "a + 1 = k * (q + 1) + 0" using a True by (simp add: algebra_simps)
    have "(a + 1) mod k = 0"
      by (rule int_mod_pos_eq [of _ _ "q + 1"]) (use e k in simp_all)
    then show ?thesis using True by (simp add: r_def)
  next
    case False
    have e: "a + 1 = k * q + (r + 1)" using a by simp
    have "(a + 1) mod k = r + 1"
      by (rule int_mod_pos_eq [of _ _ q]) (use e r False in simp_all)
    then show ?thesis using False by (simp add: r_def)
  qed
qed

lemma iso_day_number:
  "(if ((d::int) + 4) mod 7 = 0 then 7 else (d + 4) mod 7) = (d + 3) mod 7 + 1"
proof -
  have e: "d + 4 = (d + 3) + 1" by simp
  have m: "(d + 4) mod 7 = (if (d + 3) mod 7 + 1 = 7 then 0 else (d + 3) mod 7 + 1)"
    by (subst e) (rule mod_step, simp)
  have "0 \<le> (d + 3) mod 7" by simp
  then have "(d + 3) mod 7 + 1 \<noteq> 0" by linarith
  then show ?thesis unfolding m by (simp split: if_splits)
qed

lemma ceiling_seventh: "\<lceil>(of_int n + 1) / (7::rat)\<rceil> = - ((- (n + 1)) div 7)"
proof -
  have "(of_int n + 1) / (7::rat) = of_int (n + 1) / of_int 7" by simp
  then show ?thesis by (simp only: ceiling_divide_eq_div)
qed

lemma isoWeek_eq_spec:
  assumes y: "\<not> two_digit_year (getUTCFullYear t)"
    and t: "\<not> two_digit_year (fst (isoWeek_spec t))"
  shows "isoWeek t = isoWeek_spec t"
proof -
  define d where "d = Day t"
  define n where "n = (d + 3) mod 7 + 1"
  define th where "th = d + (4 - n)"
  have spec: "isoWeek_spec t =
      (YearFromDay th, \<lceil>(of_int (th - DayFromYear (YearFromDay th)) + 1) / (7::rat)\<rceil>)"
    by (simp add: isoWeek_spec_def Let_def d_def n_def th_def)
  have ty: "\<not> two_digit_year (YearFromDay th)"
    using t by (simp add: spec)
  have temp0: "Date_UTC (getUTCFullYear t) (getUTCMonth t) (getUTCDate t) = d * msPerDay"
    using y by (simp add: Date_UTC_plain getUTCFullYear_def getUTCMonth_def getUTCDate_def
        MakeDay_roundtrip d_def)
  have dayNum: "(if getUTCDay (d * msPerDay) = 0 then 7 else getUTCDay (d * msPerDay)) = n"
    unfolding getUTCDay_def WeekDay_def Day_mult n_def by (rule iso_day_number)
  have temp: "setUTCDate (d * msPerDay) (getUTCDate (d * msPerDay) + 4 - n) = th * msPerDay"
  proof -
    have "MakeDay (YearFromDay d) (MonthFromDay d) (DateFromDay d + (4 - n)) = d + (4 - n)"
      by (simp only: MakeDay_shift MakeDay_roundtrip)
    then show ?thesis
      by (simp add: setUTCDate_def getUTCFullYear_def getUTCMonth_def getUTCDate_def th_def
          add_diff_eq)
  qed
  have start: "Date_UTC (getUTCFullYear (th * msPerDay)) 0 1 = DayFromYear (YearFromDay th) * msPerDay"
    using ty by (simp add: getUTCFullYear_def Date_UTC_plain MakeDay_january_first)
  have diff: "(th * msPerDay - DayFromYear (YearFromDay th) * msPerDay) div 86400000
      = th - DayFromYear (YearFromDay th)"
  proof -
    have "th * msPerDay - DayFromYear (YearFromDay th) * msPerDay
        = (th - DayFromYear (YearFromDay th)) * 86400000"
      by (simp add: msPerDay_def algebra_simps)
    then show ?thesis by simp
  qed
  have "isoWeek t =
      (YearFromDay th, - ((- (th - DayFromYear (YearFromDay th) + 1)) div 7))"
    unfolding isoWeek_def Let_def temp0 dayNum temp start diff
    by (simp add: getUTCFullYear_def)
  then show ?thesis
    by (simp only: spec ceiling_seventh)
qed

section \<open>Properties of the date resolver\<close>

lemma msPerDay_pos: "0 < msPerDay" by (simp add: msPerDay_def)

lemma midnight_less [simp]: "a * msPerDay < b * msPerDay \<longleftrightarrow> a < b"
  using msPerDay_pos by simp

lemma midnight_le [simp]: "a * msPerDay \<le> b * msPerDay \<longleftrightarrow> a \<le> b"
  using msPerDay_pos by simp

lemma month_start_nonneg: "0 \<le> month_start l m"
  by (simp add: month_start_def)

lemma MakeDay_lower:
  assumes "0 \<le> m" "0 \<le> dt"
  shows "DayFromYear y - 1 \<le> MakeDay y m dt"
proof -
  have "0 \<le> m div 12" using assms by (simp add: pos_imp_zdiv_nonneg_iff)
  then have "DayFromYear y \<le> DayFromYear (y + m div 12)" by (intro DayFromYear_mono) simp
  then show ?thesis
    using month_start_nonneg [of "InLeapYear (y + m div 12)" "m mod 12"] assms
    by (simp add: MakeDay_def Let_def)
qed

lemma match_day_month_nonneg:
  "match_day_month l = Some (d, m) \<Longrightarrow> 0 \<le> d \<and> 0 \<le> m"
  by (induction l rule: match_day_month.induct) (auto split: if_splits)

lemma Date_UTC_eq: "Date_UTC y m dt = MakeDay (MakeFullYear y) m dt * msPerDay"
  by (simp add: Date_UTC_def)

lemma MakeFullYear_ge: "y \<le> MakeFullYear y"
  by (simp add: MakeFullYear_def)

lemma resolveDayDate_None:
  "match_day_month l = Some (d, m) \<Longrightarrow>
     resolveDayDate l start None = Inr (Date_UTC (getUTCFullYear start) (m - 1) d)"
  by (simp add: resolveDayDate_def Let_def)

lemma resolveDayDate_Some:
  "match_day_month l = Some (d, m) \<Longrightarrow>
     resolveDayDate l start (Some p) =
       Inr (if Date_UTC (getUTCFullYear p) (m - 1) d < p
            then Date_UTC (getUTCFullYear p + 1) (m - 1) d
            else Date_UTC (getUTCFullYear p) (m - 1) d)"
  by (simp add: resolveDayDate_def Let_def)

lemma resolveDayDate_advances:
  assumes l: "match_day_month l = Some (d, m)" and m: "1 \<le> m"
  shows "\<exists>dc. resolveDayDate l start (Some (dp * msPerDay)) = Inr (dc * msPerDay) \<and> dp \<le> dc"
proof -
  define Y where "Y = YearFromDay dp"
  have d: "0 \<le> d" using match_day_month_nonneg [OF l] by simp
  show ?thesis
  proof (cases "Date_UTC Y (m - 1) d < dp * msPerDay")
    case True
    have "dp < DayFromYear (Y + 1)" unfolding Y_def by (rule YearFromDay_upper)
    moreover have "DayFromYear (Y + 1) \<le> DayFromYear (MakeFullYear (Y + 1))"
      by (intro DayFromYear_mono MakeFullYear_ge)
    moreover have "DayFromYear (MakeFullYear (Y + 1)) - 1 \<le> MakeDay (MakeFullYear (Y + 1)) (m - 1) d"
      using m d by (intro MakeDay_lower) simp_all
    ultimately have "dp \<le> MakeDay (MakeFullYear (Y + 1)) (m - 1) d" by linarith
    moreover have "resolveDayDate l start (Some (dp * msPerDay))
        = Inr (MakeDay (MakeFullYear (Y + 1)) (m - 1) d * msPerDay)"
      using True
      by (simp add: resolveDayDate_Some [OF l] getUTCFullYear_def Y_def [symmetric] Date_UTC_eq)
    ultimately show ?thesis by blast
  next
    case False
    then have "dp \<le> MakeDay (MakeFullYear Y) (m - 1) d"
      by (simp add: Date_UTC_eq)
    moreover have "resolveDayDate l start (Some (dp * msPerDay))
        = Inr (MakeDay (MakeFullYear Y) (m - 1) d * msPerDay)"
      using False
      by (simp add: resolveDayDate_Some [OF l] getUTCFullYear_def Y_def [symmetric] Date_UTC_eq)
    ultimately show ?thesis by blast
  qed
qed

lemma resolve_from_sorted:
  assumes "list_all month_positive ls"
  shows "\<exists>ds. resolve_from start (Some (dp * msPerDay)) ls = Inr ds \<and> length ds = length ls
           \<and> sorted ((dp * msPerDay) # ds)"
  using assms
proof (induction ls arbitrary: dp)
  case Nil
  show ?case by simp
next
  case (Cons l ls)
  from Cons.prems obtain d m where l: "match_day_month l = Some (d, m)" and m: "1 \<le> m"
    by (auto simp: month_positive_def split: option.splits)
  from resolveDayDate_advances [OF l m] obtain dc
    where r: "resolveDayDate l start (Some (dp * msPerDay)) = Inr (dc * msPerDay)" and le: "dp \<le> dc"
    by blast
  from Cons.prems have "list_all month_positive ls" by simp
  from Cons.IH [OF this] obtain ds
    where ds: "resolve_from start (Some (dc * msPerDay)) ls = Inr ds" "length ds = length ls"
      "sorted ((dc * msPerDay) # ds)"
    by blast
  have "sorted ((dp * msPerDay) # (dc * msPerDay) # ds)"
    using ds(3) le by (simp only: sorted2 midnight_le simp_thms)
  then show ?case using r ds by simp
qed

lemma resolve_labels_sorted:
  assumes "list_all month_positive ls"
  shows "\<exists>ds. resolve_labels start ls = Inr ds \<and> length ds = length ls \<and> sorted ds"
proof (cases ls)
  case Nil
  then show ?thesis by (simp add: resolve_labels_def)
next
  case (Cons l ls')
  from assms Cons obtain d m where l: "match_day_month l = Some (d, m)"
    by (auto simp: month_positive_def split: option.splits)
  have r: "resolveDayDate l start None
      = Inr (MakeDay (MakeFullYear (getUTCFullYear start)) (m - 1) d * msPerDay)"
    by (simp add: resolveDayDate_None [OF l] Date_UTC_eq)
  from assms Cons have "list_all month_positive ls'" by simp
  from resolve_from_sorted [OF this] obtain ds
    where "resolve_from start (Some (MakeDay (MakeFullYear (getUTCFullYear start)) (m - 1) d * msPerDay)) ls' = Inr ds"
      "length ds = length ls'"
      "sorted ((MakeDay (MakeFullYear (getUTCFullYear start)) (m - 1) d * msPerDay) # ds)"
    by blast
  then show ?thesis using r Cons by (simp add: resolve_labels_def)
qed

lemma month_cases:
  "1 \<le> (m::int) \<Longrightarrow> m \<le> 12 \<Longrightarrow>
     m = 1 \<or> m = 2 \<or> m = 3 \<or> m = 4 \<or> m = 5 \<or> m = 6 \<or> m = 7 \<or> m = 8 \<or> m = 9 \<or> m = 10
       \<or> m = 11 \<or> m = 12"
  by arith

lemma month_start_fits:
  "1 \<le> m \<Longrightarrow> m \<le> 12 \<Longrightarrow>
     month_start l (m - 1) + month_days m \<le> 365 + (if l then 1 else 0)"
  using month_cases [of m] by (auto simp: month_start_def month_days_def)

lemma month_start_next:
  "1 \<le> m \<Longrightarrow> m \<le> 11 \<Longrightarrow> month_start l (m - 1) + month_days m \<le> month_start l m + 1"
  using month_cases [of m] by (auto simp: month_start_def month_days_def)

lemma month_start_ge_31: "1 \<le> m \<Longrightarrow> 31 \<le> month_start l m"
  by (simp add: month_start_def)

lemma month_start_mono:
  assumes "a \<le> b" "0 \<le> a" "b \<le> 11"
  shows "month_start l a \<le> month_start l b"
  using assms
proof (induction b rule: int_ge_induct)
  case base
  show ?case by simp
next
  case (step i)
  have "month_start l i \<le> month_start l (i + 1)"
    using step.prems step.hyps month_cases [of "i + 1"]
    by (auto simp: month_start_def)
  with step show ?case by simp
qed

lemma MakeDay_label:
  "1 \<le> m \<Longrightarrow> m \<le> 12 \<Longrightarrow>
     MakeDay Y (m - 1) d = DayFromYear Y + month_start (InLeapYear Y) (m - 1) + d - 1"
  by (simp add: MakeDay_month_in_year)

lemma date_in_year:
  assumes "valid_label l"
  shows "getUTCFullYear (date_in Y l) = Y"
proof -
  from assms obtain d m where l: "match_day_month l = Some (d, m)"
    and v: "1 \<le> m" "m \<le> 12" "1 \<le> d" "d \<le> month_days m"
    by (auto simp: valid_label_def split: option.splits)
  have "YearFromDay (MakeDay Y (m - 1) d) = Y"
  proof (rule YearFromDay_eqI)
    show "DayFromYear Y \<le> MakeDay Y (m - 1) d"
      using v month_start_nonneg [of "InLeapYear Y" "m - 1"] by (simp add: MakeDay_label)
    show "MakeDay Y (m - 1) d < DayFromYear (Y + 1)"
      using v month_start_fits [of m "InLeapYear Y"]
      by (simp add: MakeDay_label DayFromYear_Suc DaysInYear_def split: if_splits)
  qed
  then show ?thesis by (simp add: date_in_def l getUTCFullYear_def)
qed

lemma date_in_mono:
  assumes "valid_label l" "valid_label l'" "label_le l l'"
  shows "date_in Y l \<le> date_in Y l'"
proof -
  from assms(1) obtain d m where l: "match_day_month l = Some (d, m)"
    and v: "1 \<le> m" "m \<le> 12" "1 \<le> d" "d \<le> month_days m"
    by (auto simp: valid_label_def split: option.splits)
  from assms(2) obtain d' m' where l': "match_day_month l' = Some (d', m')"
    and v': "1 \<le> m'" "m' \<le> 12" "1 \<le> d'" "d' \<le> month_days m'"
    by (auto simp: valid_label_def split: option.splits)
  from assms(3) have le: "m < m' \<or> (m = m' \<and> d \<le> d')"
    by (simp add: label_le_def l l')
  have "MakeDay Y (m - 1) d \<le> MakeDay Y (m' - 1) d'"
  proof (cases "m < m'")
    case True
    have "month_start (InLeapYear Y) (m - 1) + month_days m \<le> month_start (InLeapYear Y) m + 1"
      using v v' True by (intro month_start_next) simp_all
    moreover have "month_start (InLeapYear Y) m \<le> month_start (InLeapYear Y) (m' - 1)"
      using v v' True by (intro month_start_mono) simp_all
    ultimately show ?thesis using v v' by (simp add: MakeDay_label)
  next
    case False
    with le show ?thesis using v by (simp add: MakeDay_label)
  qed
  then show ?thesis by (simp add: date_in_def l l')
qed

lemma date_in_Date_UTC:
  "match_day_month l = Some (d, m) \<Longrightarrow> \<not> two_digit_year Y \<Longrightarrow>
     Date_UTC Y (m - 1) d = date_in Y l"
  by (simp add: date_in_def Date_UTC_eq MakeFullYear_def)

lemma resolve_run:
  assumes "list_all valid_label (l0 # ls)" "sorted_wrt label_le (l0 # ls)" "\<not> two_digit_year Y"
  shows "resolve_from start (Some (date_in Y l0)) ls = Inr (map (date_in Y) ls)"
  using assms
proof (induction ls arbitrary: l0)
  case Nil
  show ?case by simp
next
  case (Cons l ls)
  from Cons.prems have v0: "valid_label l0" and v: "valid_label l" and le: "label_le l0 l"
    by simp_all
  from v obtain d m where l: "match_day_month l = Some (d, m)"
    by (auto simp: valid_label_def split: option.splits)
  have "\<not> date_in Y l < date_in Y l0"
    using date_in_mono [OF v0 v le, of Y] by simp
  then have step: "resolveDayDate l start (Some (date_in Y l0)) = Inr (date_in Y l)"
    using Cons.prems(3)
    by (simp add: resolveDayDate_Some [OF l] date_in_year [OF v0] date_in_Date_UTC [OF l])
  have "resolve_from start (Some (date_in Y l)) ls = Inr (map (date_in Y) ls)"
    using Cons.prems by (intro Cons.IH) simp_all
  with step show ?case by simp
qed

lemma MakeFullYear_not_two_digit: "\<not> two_digit_year (MakeFullYear y)"
  by (simp add: MakeFullYear_def two_digit_year_def)

lemma date_in_january_before:
  assumes "valid_label l" "2 \<le> month_of l" "valid_label y" "month_of y = 1"
  shows "date_in Y y < date_in Y l"
proof -
  from assms(1,2) obtain d m where l: "match_day_month l = Some (d, m)"
    and v: "2 \<le> m" "m \<le> 12" "1 \<le> d"
    by (auto simp: valid_label_def month_of_def split: option.splits)
  from assms(3,4) obtain d' where y: "match_day_month y = Some (d', 1)" and v': "d' \<le> 31"
    by (auto simp: valid_label_def month_of_def month_days_def split: option.splits)
  have "31 \<le> month_start (InLeapYear Y) (m - 1)"
    using v by (intro month_start_ge_31) simp
  moreover have "MakeDay Y 0 d' = DayFromYear Y + d' - 1"
    by (simp add: MakeDay_def month_start_def)
  moreover have "MakeDay Y (m - 1) d
      = DayFromYear Y + month_start (InLeapYear Y) (m - 1) + d - 1"
    using v by (intro MakeDay_label) simp_all
  ultimately have "MakeDay Y 0 d' < MakeDay Y (m - 1) d"
    using v v' by linarith
  then show ?thesis by (simp add: date_in_def l y)
qed

lemma resolve_across:
  assumes "list_all valid_label (l0 # xs @ ys)" "sorted_wrt label_le (l0 # xs)"
    "sorted_wrt label_le ys" "ys \<noteq> []" "2 \<le> month_of (last (l0 # xs))"
    "month_of (hd ys) = 1" "\<not> two_digit_year Y"
  shows "resolve_from start (Some (date_in Y l0)) (xs @ ys)
    = Inr (map (date_in Y) xs @ map (date_in (MakeFullYear (Y + 1))) ys)"
  using assms
proof (induction xs arbitrary: l0)
  case Nil
  then obtain y ys' where ys: "ys = y # ys'" by (cases ys) auto
  from Nil.prems ys have v0: "valid_label l0" and vy: "valid_label y"
    and m0: "2 \<le> month_of l0" and my: "month_of y = 1"
    by simp_all
  from vy obtain d m where y: "match_day_month y = Some (d, m)"
    by (auto simp: valid_label_def split: option.splits)
  have "Date_UTC (Y + 1) (m - 1) d = date_in (MakeFullYear (Y + 1)) y"
    by (simp add: Date_UTC_eq date_in_def y)
  then have step: "resolveDayDate y start (Some (date_in Y l0))
      = Inr (date_in (MakeFullYear (Y + 1)) y)"
    using date_in_january_before [OF v0 m0 vy my, of Y] Nil.prems(7)
    by (simp add: resolveDayDate_Some [OF y] date_in_year [OF v0] date_in_Date_UTC [OF y])
  have "resolve_from start (Some (date_in (MakeFullYear (Y + 1)) y)) ys'
      = Inr (map (date_in (MakeFullYear (Y + 1))) ys')"
    using Nil.prems ys by (intro resolve_run MakeFullYear_not_two_digit) simp_all
  with step show ?case by (simp add: ys)
next
  case (Cons l xs)
  from Cons.prems have v0: "valid_label l0" and v: "valid_label l" and le: "label_le l0 l"
    by simp_all
  from v obtain d m where l: "match_day_month l = Some (d, m)"
    by (auto simp: valid_label_def split: option.splits)
  have "\<not> date_in Y l < date_in Y l0"
    using date_in_mono [OF v0 v le, of Y] by simp
  then have step: "resolveDayDate l start (Some (date_in Y l0)) = Inr (date_in Y l)"
    using Cons.prems(7)
    by (simp add: resolveDayDate_Some [OF l] date_in_year [OF v0] date_in_Date_UTC [OF l])
  have "resolve_from start (Some (date_in Y l)) (xs @ ys)
      = Inr (map (date_in Y) xs @ map (date_in (MakeFullYear (Y + 1))) ys)"
    using Cons.prems by (intro Cons.IH) simp_all
  with step show ?case by simp
qed

lemma resolve_labels_across:
  assumes "spans_year_boundary xs ys"
  shows "resolve_labels start (xs @ ys)
    = Inr (map (date_in (MakeFullYear (getUTCFullYear start))) xs
           @ map (date_in (MakeFullYear (MakeFullYear (getUTCFullYear start) + 1))) ys)"
proof -
  from assms obtain x xs' where xs: "xs = x # xs'"
    by (cases xs) (auto simp: spans_year_boundary_def)
  from assms xs have vx: "valid_label x"
    by (simp add: spans_year_boundary_def)
  then obtain d m where x: "match_day_month x = Some (d, m)"
    by (auto simp: valid_label_def split: option.splits)
  have first: "resolveDayDate x start None = Inr (date_in (MakeFullYear (getUTCFullYear start)) x)"
    by (simp add: resolveDayDate_None [OF x] Date_UTC_eq date_in_def x)
  have "resolve_from start (Some (date_in (MakeFullYear (getUTCFullYear start)) x)) (xs' @ ys)
    = Inr (map (date_in (MakeFullYear (getUTCFullYear start))) xs'
           @ map (date_in (MakeFullYear (MakeFullYear (getUTCFullYear start) + 1))) ys)"
    using assms xs
    by (intro resolve_across MakeFullYear_not_two_digit) (simp_all add: spans_year_boundary_def)
  with first show ?thesis by (simp add: resolve_labels_def xs)
qed

lemma year_increases_Cons2:
  "year_increases (a # b # ds) =
     (if getUTCFullYear a < getUTCFullYear b then 1 else 0) + year_increases (b # ds)"
  by (simp add: year_increases_def)

lemma year_increases_same:
  "\<forall>b\<in>set bs. getUTCFullYear b = Y \<Longrightarrow> year_increases bs = 0"
proof (induction bs rule: induct_list012)
  case (3 a b ds)
  then show ?case by (simp add: year_increases_Cons2)
qed (simp_all add: year_increases_def)

lemma year_increases_two_years:
  assumes "as \<noteq> []" "bs \<noteq> []" "\<forall>a\<in>set as. getUTCFullYear a = Y" 
    "\<forall>b\<in>set bs. getUTCFullYear b = Z" "Y < Z"
  shows "year_increases (as @ bs) = 1"
  using assms
proof (induction as rule: induct_list012)
  case 1
  then show ?case by simp
next
  case (2 a)
  then obtain b bs' where bs: "bs = b # bs'" by (cases bs) auto
  with 2 show ?case
    using year_increases_same [of bs Z] by (simp add: year_increases_Cons2)
next
  case (3 a a' as)
  then show ?case by (simp add: year_increases_Cons2)
qed

lemma resolve_labels_one_increase:
  assumes "spans_year_boundary xs ys"
  shows "\<exists>ds. resolve_labels start (xs @ ys) = Inr ds \<and> year_increases ds = 1"
proof -
  define Y where "Y = MakeFullYear (getUTCFullYear start)"
  have vx: "\<forall>a\<in>set (map (date_in Y) xs). getUTCFullYear a = Y"
    and vy: "\<forall>b\<in>set (map (date_in (MakeFullYear (Y + 1))) ys). getUTCFullYear b = MakeFullYear (Y + 1)"
    using assms by (auto simp: spans_year_boundary_def list_all_iff date_in_year)
  have "Y < MakeFullYear (Y + 1)" using MakeFullYear_ge [of "Y + 1"] by simp
  then have "year_increases (map (date_in Y) xs @ map (date_in (MakeFullYear (Y + 1))) ys) = 1"
    using assms vx vy by (intro year_increases_two_years) (simp_all add: spans_year_boundary_def)
  then show ?thesis
    by (simp add: resolve_labels_across [OF assms] Y_def)
qed

text \<open>
  Claim C1, as the code has it. For every anchor date and every sequence of labels whose
  matched month number is not 00, the resolver returns a date for each label and the
  dates are non-decreasing; and when the labels span a year boundary (valid days that
  ascend, fall back once from a month after January to January, and ascend again) the
  year of the resolved dates goes up exactly once.
\<close>

theorem resolve_labels_nondecreasing:
  "(list_all month_positive ls \<longrightarrow>
      (\<exists>ds. resolve_labels start ls = Inr ds \<and> length ds = length ls \<and> sorted ds)) \<and>
   (spans_year_boundary xs ys \<longrightarrow>
      (\<exists>ds. resolve_labels start (xs @ ys) = Inr ds \<and> year_increases ds = 1))"
  using resolve_labels_sorted [of ls start] resolve_labels_one_increase [of xs ys start]
  by blast

theorem resolve_labels_nondecreasing_witness:
  "list_all month_positive (new_year_week_before @ new_year_week_after) \<and>
   spans_year_boundary new_year_week_before new_year_week_after \<and>
   (\<exists>ds. resolve_labels (Date_UTC 2024 11 29) (new_year_week_before @ new_year_week_after)
           = Inr ds \<and> length ds = 5 \<and> sorted ds \<and> year_increases ds = 1)"
proof -
  have a: "list_all month_positive (new_year_week_before @ new_year_week_after)"
    by code_simp
  have b: "spans_year_boundary new_year_week_before new_year_week_after"
    by code_simp
  have c: "length (new_year_week_before @ new_year_week_after) = 5"
    by code_simp
  show ?thesis
    using resolve_labels_nondecreasing [of "new_year_week_before @ new_year_week_after"
        "Date_UTC 2024 11 29" new_year_week_before new_year_week_after] a b c
    by auto
qed

text \<open>
  The claim as stated does not hold for every label the resolver parses: the month token
  00 is accepted, \<open>Date.UTC\<close> reads it as the December of the year before, and after a day
  later in December the resolved date goes back (2024-12-15, then 2024-12-01).
\<close>

theorem resolve_labels_month_zero_decreases:
  "match_day_month ''So 15.12.'' = Some (15, 12) \<and>
   match_day_month ''Mo 01.00.'' = Some (1, 0) \<and>
   resolve_labels (Date_UTC 2024 11 1) [''So 15.12.'', ''Mo 01.00.'']
     = Inr [Date_UTC 2024 11 15, Date_UTC 2024 11 1] \<and>
   Date_UTC 2024 11 1 < Date_UTC 2024 11 15"
  by code_simp

section \<open>Properties of the legend parser\<close>

lemma insert_index_keys: "fst ` set (insert_index k v ob) = insert k (fst ` set ob)"
proof (induction ob)
  case Nil
  show ?case by simp
next
  case (Cons p ob)
  obtain k' v' where p: "p = (k', v')" by (cases p)
  show ?case
  proof (cases "is_array_index k' \<and> digits_val k' < digits_val k")
    case True
    then have "insert_index k v (p # ob) = (k', v') # insert_index k v ob" by (simp add: p)
    then show ?thesis using Cons.IH by (simp add: p insert_commute)
  next
    case False
    then have "insert_index k v (p # ob) = (k, v) # (k', v') # ob" by (auto simp: p)
    then show ?thesis by (simp add: p)
  qed
qed

lemma insert_index_distinct:
  "k \<notin> fst ` set ob \<Longrightarrow> distinct (map fst ob) \<Longrightarrow> distinct (map fst (insert_index k v ob))"
proof (induction ob)
  case Nil
  show ?case by simp
next
  case (Cons p ob)
  obtain k' v' where p: "p = (k', v')" by (cases p)
  have a: "k \<noteq> k'" "k \<notin> fst ` set ob" "k' \<notin> fst ` set ob" "distinct (map fst ob)"
    using Cons.prems by (simp_all add: p)
  have "k' \<notin> fst ` set (insert_index k v ob)"
    using a by (simp add: insert_index_keys)
  then show ?case using Cons.IH a by (simp add: p)
qed

lemma obj_set_keys_replace:
  "map fst (map (\<lambda>(k', v'). if k' = k then (k', v) else (k', v')) ob) = map fst ob"
  by (induction ob) auto

lemma obj_set_distinct:
  assumes "distinct (map fst ob)"
  shows "distinct (map fst (obj_set ob k v))"
proof -
  consider "k = ''__proto__''" | "k \<noteq> ''__proto__''" "k \<in> set (map fst ob)"
    | "k \<noteq> ''__proto__''" "k \<notin> set (map fst ob)" "is_array_index k"
    | "k \<noteq> ''__proto__''" "k \<notin> set (map fst ob)" "\<not> is_array_index k"
    by blast
  then show ?thesis
  proof cases
    case 1
    then show ?thesis using assms by (simp add: obj_set_def)
  next
    case 2
    then have "obj_set ob k v = map (\<lambda>(k', v'). if k' = k then (k', v) else (k', v')) ob"
      by (simp add: obj_set_def)
    then show ?thesis using assms by (simp only: obj_set_keys_replace)
  next
    case 3
    then have "obj_set ob k v = insert_index k v ob" by (simp add: obj_set_def)
    then show ?thesis using assms 3 by (simp add: insert_index_distinct)
  next
    case 4
    then have "obj_set ob k v = ob @ [(k, v)]" by (simp add: obj_set_def)
    then show ?thesis using assms 4 by simp
  qed
qed

lemma add_entry_distinct: "distinct (map fst es) \<Longrightarrow> distinct (map fst (add_entry es g1 g2))"
  by (simp add: add_entry_def Let_def obj_set_distinct)

lemma exec_loop_distinct:
  "distinct (map fst entries) \<Longrightarrow> exec_loop m body i entries = Some es \<Longrightarrow> distinct (map fst es)"
proof (induction m body i entries rule: exec_loop.induct)
  case (1 m body i entries)
  show ?case
  proof (cases "if i \<le> length body then m body i else None")
    case None
    with "1.prems" show ?thesis by (simp add: exec_loop.simps [of m body i entries])
  next
    case (Some r)
    obtain e g1 g2 where r: "r = (e, g1, g2)" by (cases r)
    show ?thesis
    proof (cases "i < e \<and> e \<le> length body")
      case False
      with "1.prems" Some r show ?thesis by (simp add: exec_loop.simps [of m body i entries])
    next
      case True
      have run: "exec_loop m body e (add_entry entries g1 g2) = Some es"
        using "1.prems"(2) Some r True by (simp add: exec_loop.simps [of m body i entries])
      show ?thesis
        using "1.IH" [OF Some r [symmetric] refl True add_entry_distinct [OF "1.prems"(1)] run] .
    qed
  qed
qed

lemma key_info_consumes: "consumes key_info"
  unfolding consumes_def
proof (intro allI impI)
  fix s k r assume "key_info s = Some (k, r)"
  then show "length r < length s"
    by (induction s rule: key_info.induct) (auto split: if_splits)
qed

lemma key_allergen_consumes: "consumes key_allergen"
  unfolding consumes_def
proof (intro allI impI)
  fix s k r assume "key_allergen s = Some (k, r)"
  then show "length r < length s"
    by (induction s rule: key_allergen.induct) (auto split: if_splits)
qed

lemma key_additive_consumes: "consumes key_additive"
  unfolding consumes_def
proof (intro allI impI)
  fix s k r assume "key_additive s = Some (k, r)"
  then show "length r < length s"
    by (induction s rule: key_additive.induct) (auto split: if_splits)
qed

lemma terminator_length: "terminator s = Some r \<Longrightarrow> length r \<le> length s"
  by (induction s rule: terminator.induct) (auto split: if_splits)

lemma lazy_group_length: "lazy_group s = Some (g, r) \<Longrightarrow> length r < length s"
proof (induction s arbitrary: g r)
  case Nil
  then show ?case by simp
next
  case (Cons c cs)
  show ?case
  proof (cases "terminator cs")
    case (Some r')
    with Cons.prems have "r = r'" by (auto split: if_splits)
    with terminator_length [OF Some] show ?thesis by simp
  next
    case None
    with Cons.prems obtain g' where "lazy_group cs = Some (g', r)"
      by (auto split: if_splits option.splits)
    from Cons.IH [OF this] show ?thesis by simp
  qed
qed

lemma tail_try_length: "tail_try k s = Some (v, r) \<Longrightarrow> length r \<le> length s"
proof (induction k)
  case 0
  then have "lazy_group s = Some (v, r)" by (auto split: option.splits)
  from lazy_group_length [OF this] show ?case by simp
next
  case (Suc k)
  show ?case
  proof (cases "lazy_group (drop (Suc k) s)")
    case None
    with Suc show ?thesis by simp
  next
    case (Some p)
    with Suc.prems have "lazy_group (drop (Suc k) s) = Some (v, r)" by simp
    from lazy_group_length [OF this] show ?thesis by simp
  qed
qed

lemma match_here_length:
  assumes "consumes key" "match_here key s = Some (k, v, r)"
  shows "length r < length s"
proof -
  from assms(2) obtain r' where a: "key s = Some (k, r')"
    and b: "tail_try (length (takeWhile is_space r')) r' = Some (v, r)"
    by (auto simp: match_here_def split: option.splits)
  from assms(1) a have "length r' < length s" by (simp add: consumes_def)
  with tail_try_length [OF b] show ?thesis by linarith
qed

lemma search_length:
  "consumes key \<Longrightarrow> search key s = Some (k, v, r) \<Longrightarrow> length r < length s"
proof (induction s)
  case Nil
  then show ?case by simp
next
  case (Cons c cs)
  show ?case
  proof (cases "match_here key (c # cs)")
    case None
    with Cons show ?thesis by fastforce
  next
    case (Some p)
    with Cons.prems have "match_here key (c # cs) = Some (k, v, r)" by simp
    from match_here_length [OF Cons.prems(1) this] show ?thesis .
  qed
qed

lemma matcher_of_advances:
  assumes "consumes key" "matcher_of key body i = Some (e, g1, g2)" "i \<le> length body"
  shows "i < e \<and> e \<le> length body"
proof -
  from assms(2) obtain r where s: "search key (drop i body) = Some (g1, g2, r)"
    and e: "e = length body - length r"
    by (auto simp: matcher_of_def split: option.splits)
  from search_length [OF assms(1) s] have "length r < length body - i" by simp
  with e assms(3) show ?thesis by linarith
qed

lemma exec_loop_returns:
  assumes "consumes key"
  shows "\<exists>es. exec_loop (matcher_of key) body i entries = Some es"
proof (induction "matcher_of key" body i entries rule: exec_loop.induct)
  case (1 body i entries)
  show ?case
  proof (cases "if i \<le> length body then matcher_of key body i else None")
    case None
    then show ?thesis by (simp add: exec_loop.simps [of _ body i entries])
  next
    case (Some r)
    obtain e g1 g2 where r: "r = (e, g1, g2)" by (cases r)
    from Some r have m: "matcher_of key body i = Some (e, g1, g2)" and i: "i \<le> length body"
      by (auto split: if_splits)
    from matcher_of_advances [OF assms m i] have adv: "i < e \<and> e \<le> length body" .
    from "1.hyps" [OF Some r [symmetric] refl adv]
    obtain es where "exec_loop (matcher_of key) body e (add_entry entries g1 g2) = Some es"
      by blast
    then show ?thesis using Some r adv by (simp add: exec_loop.simps [of _ body i entries])
  qed
qed

lemma parseLegendEntries_returns:
  "consumes key \<Longrightarrow> \<exists>es. fst (parseLegendEntries t (legend_pattern key)) = Some es"
  by (simp add: parseLegendEntries_def legend_pattern_def Let_def exec_loop_returns)


lemma parseLegendEntries_distinct:
  "fst (parseLegendEntries t p) = Some es \<Longrightarrow> distinct (map fst es)"
  by (simp add: parseLegendEntries_def Let_def) (erule exec_loop_distinct [rotated], simp)

text \<open>
  Claim C9. For every legend text and every pattern, \<open>parseLegendEntries\<close> leaves the
  pattern object as it was and its result does not depend on the pattern's
  \<open>lastIndex\<close>, so a second call on the same text gives the same mapping; the keys of
  a returned mapping are pairwise distinct; and with each of the three patterns of
  \<open>parseLegend\<close> the call returns.
\<close>

theorem parseLegendEntries_idempotent:
  "snd (parseLegendEntries t p) = p \<and>
   fst (parseLegendEntries t (snd (parseLegendEntries t p))) = fst (parseLegendEntries t p) \<and>
   fst (parseLegendEntries t (p\<lparr>lastIndex := n\<rparr>)) = fst (parseLegendEntries t p) \<and>
   (\<forall>es. fst (parseLegendEntries t p) = Some es \<longrightarrow> distinct (map fst es)) \<and>
   (\<exists>es. fst (parseLegendEntries t (legend_pattern key_info)) = Some es) \<and>
   (\<exists>es. fst (parseLegendEntries t (legend_pattern key_allergen)) = Some es) \<and>
   (\<exists>es. fst (parseLegendEntries t (legend_pattern key_additive)) = Some es)"
  using parseLegendEntries_distinct [of t p]
    parseLegendEntries_returns [OF key_info_consumes, of t]
    parseLegendEntries_returns [OF key_allergen_consumes, of t]
    parseLegendEntries_returns [OF key_additive_consumes, of t]
  by (simp add: parseLegendEntries_def Let_def)

theorem parseLegendEntries_idempotent_witness:
  "fst (parseLegendEntries ''Zusatzstoffe: 10) zehn, 9) neun, 10) nochmal''
         (legend_pattern key_additive))
     = Some [(''9'', ''neun''), (''10'', ''nochmal'')] \<and>
   fst (parseLegendEntries ''Zusatzstoffe: 10) zehn, 9) neun, 10) nochmal''
         (snd (parseLegendEntries ''Zusatzstoffe: 10) zehn, 9) neun, 10) nochmal''
                (legend_pattern key_additive))))
     = Some [(''9'', ''neun''), (''10'', ''nochmal'')] \<and>
   distinct (map fst [(''9'', ''neun''), (''10'', ''nochmal'')])"
proof -
  have e: "fst (parseLegendEntries ''Zusatzstoffe: 10) zehn, 9) neun, 10) nochmal''
                  (legend_pattern key_additive))
      = Some [(''9'', ''neun''), (''10'', ''nochmal'')]"
    by code_simp
  show ?thesis
    using parseLegendEntries_idempotent
      [of "''Zusatzstoffe: 10) zehn, 9) neun, 10) nochmal''" "legend_pattern key_additive" 7]
    by (simp add: e)
qed

section \<open>Properties of the menu page extractor\<close>


lemma labels_from_Suc:
  "labels_from nodes i (Suc n) = cleanText (column_text nodes i) # labels_from nodes (Suc i) n"
proof -
  have "[i..<i + Suc n] = i # [Suc i..<Suc i + n]"
    by (simp add: upt_conv_Cons del: upt_Suc)
  then show ?thesis by (simp only: labels_from_def list.map)
qed





text \<open>When the extraction returns, the day menus of a container are its dish rows
  paired by index with the labels read.\<close>

lemma parse_rows_pairs:
  "parse_rows s p nodes i rows = Inr ds \<Longrightarrow>
     map label ds = labels_from nodes i (length rows) \<and>
     map categories ds = map parseDishRow rows"
proof (induction rows arbitrary: p i ds)
  case Nil
  then show ?case by (simp add: labels_from_def)
next
  case (Cons row rows)
  from Cons.prems obtain d rest where
    d: "resolveDayDate (cleanText (column_text nodes i)) s p = Inr d"
    and rest: "parse_rows s (Some d) nodes (Suc i) rows = Inr rest"
    and ds: "ds = \<lparr>date = formatIsoDate d, label = cleanText (column_text nodes i),
                   categories = parseDishRow row\<rparr> # rest"
    by (auto simp: Let_def split: sum.splits)
  from Cons.IH [OF rest] show ?case by (simp add: ds labels_from_Suc)
qed

lemma parseMenuPage_more_labels:
  "map_option (\<lambda>(w, r). (w, map_sum id (\<lambda>m. map (\<lambda>d. (date d, label d)) (days m)) r))
     (parseMenuPage page_more_labels)
   = Some ([CountMismatch 3 2], Inr [(''2025-01-06'', ''Mo 06.01.''), (''2025-01-07'', ''Di 07.01.'')])"
  by code_simp

text \<open>
  Claim C2. With more day labels than dish rows the extraction goes on after the
  warning, for the number of dish rows (lemma \<open>parseMenuPage_more_labels\<close>). With fewer
  day labels than dish rows it does not: the loop runs over all dish rows, reads the
  empty string where the day label is missing, and the resolver throws on it. One day
  label and two dish rows give the warning and then the error, and no day menu.
\<close>

theorem parseMenuPage_fewer_labels_throws:
  "parseMenuPage page_fewer_labels = Some ([CountMismatch 1 2], Inl (UnableToParseDayLabel []))"
  by code_simp


section \<open>Properties of the day-indexed document\<close>

lemma map_of_replace:
  "map_of (map (\<lambda>(k', v'). if k' = k then (k', v) else (k', v')) ob) x
     = (if x = k \<and> k \<in> fst ` set ob then Some v else map_of ob x)"
proof (induction ob arbitrary: x)
  case Nil
  show ?case by simp
next
  case (Cons p ob)
  obtain a b where p: "p = (a, b)" by (cases p)
  show ?case
  proof (cases "a = k")
    case True
    then show ?thesis by (simp add: p Cons.IH)
  next
    case False
    then show ?thesis by (simp add: p Cons.IH)
  qed
qed

lemma map_of_insert_index:
  "k \<notin> fst ` set ob \<Longrightarrow>
     map_of (insert_index k v ob) x = (if x = k then Some v else map_of ob x)"
proof (induction ob arbitrary: x)
  case Nil
  show ?case by simp
next
  case (Cons p ob)
  obtain a b where p: "p = (a, b)" by (cases p)
  from Cons.prems have ne: "k \<noteq> a" and nin: "k \<notin> fst ` set ob" by (simp_all add: p)
  have ih: "\<And>x. map_of (insert_index k v ob) x = (if x = k then Some v else map_of ob x)"
    by (rule Cons.IH [OF nin])
  show ?case
  proof (cases "is_array_index a \<and> digits_val a < digits_val k")
    case True
    then have e: "insert_index k v (p # ob) = (a, b) # insert_index k v ob" by (simp add: p)
    show ?thesis unfolding e using ne by (simp add: ih p)
  next
    case False
    then have e: "insert_index k v (p # ob) = (k, v) # (a, b) # ob" by (auto simp: p)
    show ?thesis unfolding e by (simp add: p)
  qed
qed

lemma map_of_append_new:
  "k \<notin> fst ` set ob \<Longrightarrow> map_of (ob @ [(k, v)]) k' = (if k' = k then Some v else map_of ob k')"
proof (induction ob)
  case Nil
  show ?case by simp
next
  case (Cons p ob)
  then show ?case by (cases p) auto
qed

lemma obj_get_set:
  "obj_get (obj_set ob k v) x
     = (if k = ''__proto__'' then obj_get ob x else if x = k then Some v else obj_get ob x)"
proof -
  consider "k = ''__proto__''" | "k \<noteq> ''__proto__''" "k \<in> fst ` set ob"
    | "k \<noteq> ''__proto__''" "k \<notin> fst ` set ob" "is_array_index k"
    | "k \<noteq> ''__proto__''" "k \<notin> fst ` set ob" "\<not> is_array_index k"
    by blast
  then show ?thesis
  proof cases
    case 1
    then show ?thesis by (simp add: obj_set_def)
  next
    case 2
    then have e: "obj_set ob k v = map (\<lambda>(k', v'). if k' = k then (k', v) else (k', v')) ob"
      by (simp add: obj_set_def)
    show ?thesis unfolding e obj_get_def map_of_replace using 2 by simp
  next
    case 3
    then have e: "obj_set ob k v = insert_index k v ob" by (simp add: obj_set_def)
    show ?thesis unfolding e obj_get_def map_of_insert_index [OF 3(2)] using 3 by simp
  next
    case 4
    then have e: "obj_set ob k v = ob @ [(k, v)]" by (simp add: obj_set_def)
    show ?thesis unfolding e obj_get_def map_of_append_new [OF 4(2)] using 4 by simp
  qed
qed

lemma proto_in_names: "''__proto__'' \<in> set prototype_names"
  by (simp add: prototype_names_def)

lemma accumulate_day_label:
  assumes "accumulate_day slug c acc (dt, day) = Inr acc'"
  shows "label_in acc' dt' =
    (if dt' = dt then (case label_in acc dt of None \<Rightarrow> Some (dd_label day) | Some l \<Rightarrow> Some l)
     else label_in acc dt')"
proof -
  from assms have np: "dt \<noteq> ''__proto__''"
    using proto_in_names by (auto simp: accumulate_day_def split: if_splits)
  show ?thesis
  proof (cases "obj_get acc dt")
    case None
    with assms np show ?thesis
      by (auto simp: accumulate_day_def label_in_def obj_get_set Let_def split: if_splits)
  next
    case (Some e)
    with assms np show ?thesis
      by (auto simp: accumulate_day_def label_in_def obj_get_set Let_def split: if_splits)
  qed
qed

lemma accumulate_days_label:
  "accumulate_days slug c acc es = Inr acc' \<Longrightarrow>
     label_in acc' dt' =
       (case label_in acc dt' of Some l \<Rightarrow> Some l
        | None \<Rightarrow> map_option dd_label (map_of es dt'))"
proof (induction es arbitrary: acc)
  case Nil
  then show ?case by (simp split: option.splits)
next
  case (Cons entry es)
  obtain dt day where entry: "entry = (dt, day)" by (cases entry)
  from Cons.prems obtain acc1 where
    1: "accumulate_day slug c acc (dt, day) = Inr acc1"
    and 2: "accumulate_days slug c acc1 es = Inr acc'"
    by (auto simp: entry split: sum.splits)
  show ?case
    using Cons.IH [OF 2] accumulate_day_label [OF 1, of dt']
    by (auto simp: entry split: option.splits)
qed

lemma accumulate_canteens_label:
  "accumulate_canteens acc cs = Inr acc' \<Longrightarrow>
     label_in acc' dt =
       (case label_in acc dt of Some l \<Rightarrow> Some l | None \<Rightarrow> first_label cs dt)"
proof (induction cs arbitrary: acc)
  case Nil
  then show ?case by (simp split: option.splits)
next
  case (Cons p cs)
  obtain slug c where p: "p = (slug, c)" by (cases p)
  from Cons.prems obtain acc1 where
    1: "accumulate_days slug c acc (c_days c) = Inr acc1"
    and 2: "accumulate_canteens acc1 cs = Inr acc'"
    by (auto simp: p split: sum.splits)
  show ?case
    using Cons.IH [OF 2] accumulate_days_label [OF 1, of dt]
    by (auto simp: p obj_get_def split: option.splits)
qed

lemma fold_obj_set_get:
  "obj_get (foldl (\<lambda>ob k. case f k of Some v \<Rightarrow> obj_set ob k (h v) | None \<Rightarrow> ob) start ks) k'
     = (if k' \<in> set ks \<and> k' \<noteq> ''__proto__'' \<and> f k' \<noteq> None then map_option h (f k')
        else obj_get start k')"
proof (induction ks arbitrary: start)
  case Nil
  show ?case by simp
next
  case (Cons k ks)
  show ?case
    by (cases "f k") (auto simp: Cons.IH obj_get_set)
qed

lemma ordered_days_label:
  "dt \<noteq> ''__proto__'' \<Longrightarrow> label_in (ordered_days acc) dt = label_in acc dt"
proof -
  assume np: "dt \<noteq> ''__proto__''"
  have "obj_get (ordered_days acc) dt
      = (if dt \<in> set (sort (map fst acc)) \<and> dt \<noteq> ''__proto__'' \<and> obj_get acc dt \<noteq> None
         then map_option (\<lambda>day. \<lparr>g_label = g_label day, g_canteens = ordered_canteens (g_canteens day)\<rparr>)
                (obj_get acc dt)
         else obj_get [] dt)"
    unfolding ordered_days_def
    by (rule fold_obj_set_get [where f = "obj_get acc" and start = "[]"])
  moreover have "obj_get acc dt \<noteq> None \<longleftrightarrow> dt \<in> fst ` set acc"
    by (simp add: obj_get_def map_of_eq_None_iff)
  moreover have "obj_get [] dt = (None :: DayGrouped option)"
    by (simp add: obj_get_def)
  ultimately show ?thesis
    using np by (cases "obj_get acc dt") (simp_all add: label_in_def option.map_comp comp_def)
qed

lemma accumulate_day_Inr:
  "dt \<notin> set prototype_names \<Longrightarrow> \<exists>acc1. accumulate_day slug c acc (dt, day) = Inr acc1"
  by (simp add: accumulate_day_def Let_def split: option.split)

lemma accumulate_days_Inr_iff:
  "(\<exists>acc'. accumulate_days slug c acc es = Inr acc')
     \<longleftrightarrow> list_all (\<lambda>(dt, day). dt \<notin> set prototype_names) es"
proof (induction es arbitrary: acc)
  case Nil
  show ?case by simp
next
  case (Cons entry es)
  obtain dt day where entry: "entry = (dt, day)" by (cases entry)
  show ?case
  proof (cases "dt \<in> set prototype_names")
    case True
    then show ?thesis by (simp add: entry accumulate_day_def)
  next
    case False
    then obtain acc1 where "accumulate_day slug c acc (dt, day) = Inr acc1"
      using accumulate_day_Inr by blast
    with False Cons.IH [of acc1] show ?thesis by (simp add: entry)
  qed
qed

lemma accumulate_canteens_Inr_iff:
  "(\<exists>acc'. accumulate_canteens acc cs = Inr acc')
     \<longleftrightarrow> list_all (\<lambda>(slug, c). list_all (\<lambda>(dt, day). dt \<notin> set prototype_names) (c_days c)) cs"
proof (induction cs arbitrary: acc)
  case Nil
  show ?case by simp
next
  case (Cons p cs)
  obtain slug c where p: "p = (slug, c)" by (cases p)
  show ?case
  proof (cases "accumulate_days slug c acc (c_days c)")
    case (Inl e)
    then have "\<not> list_all (\<lambda>(dt, day). dt \<notin> set prototype_names) (c_days c)"
      using accumulate_days_Inr_iff [of slug c acc "c_days c"] by simp
    with Inl show ?thesis by (simp add: p)
  next
    case (Inr acc1)
    then have "list_all (\<lambda>(dt, day). dt \<notin> set prototype_names) (c_days c)"
      using accumulate_days_Inr_iff [of slug c acc "c_days c"] by blast
    with Inr Cons.IH [of acc1] show ?thesis by (simp add: p)
  qed
qed

lemma first_label_prototype:
  "list_all (\<lambda>(slug, c). list_all (\<lambda>(dt, day). dt \<notin> set prototype_names) (c_days c)) cs \<Longrightarrow>
     dt \<in> set prototype_names \<Longrightarrow> first_label cs dt = None"
proof (induction cs)
  case Nil
  show ?case by simp
next
  case (Cons p cs)
  obtain slug c where p: "p = (slug, c)" by (cases p)
  from Cons.prems have "dt \<notin> fst ` set (c_days c)"
    by (auto simp: p list_all_iff)
  then have "obj_get (c_days c) dt = None"
    by (simp add: obj_get_def map_of_eq_None_iff)
  with Cons show ?case by (simp add: p)
qed

lemma ordered_days_proto: "obj_get (ordered_days acc) ''__proto__'' = None"
proof -
  have "obj_get (ordered_days acc) ''__proto__'' = obj_get [] ''__proto__''"
    unfolding ordered_days_def
    by (subst fold_obj_set_get [where f = "obj_get acc" and start = "[]"]) simp
  then show ?thesis by (simp add: obj_get_def)
qed

lemma buildDayGroupedWeek_label:
  assumes "buildDayGroupedWeek src = Inr g"
  shows "map_option g_label (obj_get (dg_days g) dt) = first_label (canteens src) dt"
proof -
  from assms obtain acc where acc: "accumulate_canteens [] (canteens src) = Inr acc"
    and g: "dg_days g = ordered_days acc"
    by (auto simp: buildDayGroupedWeek_def split: sum.splits)
  have l: "label_in acc dt = first_label (canteens src) dt"
    using accumulate_canteens_label [OF acc, of dt] by (simp add: label_in_def obj_get_def)
  show ?thesis
  proof (cases "dt = ''__proto__''")
    case True
    have "first_label (canteens src) dt = None"
      using accumulate_canteens_Inr_iff [of "[]" "canteens src"] acc True proto_in_names
      by (intro first_label_prototype) auto
    then show ?thesis by (simp add: g True ordered_days_proto)
  next
    case False
    from ordered_days_label [OF False, of acc] l show ?thesis
      by (simp add: g label_in_def)
  qed
qed

text \<open>
  Claim C10. When \<open>buildDayGroupedWeek\<close> returns, the label of every date of the
  day-indexed document is the label of the first canteen, in the enumeration order of
  the \<open>canteens\<close> object, that records the date; the labels that later canteens give
  the date do not appear. It returns whenever no date is a name inherited from
  \<open>Object.prototype\<close>.
\<close>

theorem buildDayGroupedWeek_first_label:
  "(buildDayGroupedWeek src = Inr g \<longrightarrow>
      map_option g_label (obj_get (dg_days g) dt) = first_label (canteens src) dt) \<and>
   (plain_dates src \<longrightarrow> (\<exists>g'. buildDayGroupedWeek src = Inr g'))"
proof -
  have "plain_dates src \<longrightarrow> (\<exists>g'. buildDayGroupedWeek src = Inr g')"
    using accumulate_canteens_Inr_iff [of "[]" "canteens src"]
    by (auto simp: plain_dates_def buildDayGroupedWeek_def)
  then show ?thesis using buildDayGroupedWeek_label [of src g dt] by blast
qed

theorem buildDayGroupedWeek_first_label_witness:
  "plain_dates week_two_labels \<and>
   first_label (canteens week_two_labels) ''2025-01-06'' = Some ''Montag 06.01.'' \<and>
   (\<exists>g. buildDayGroupedWeek week_two_labels = Inr g \<and>
        map_option g_label (obj_get (dg_days g) ''2025-01-06'') = Some ''Montag 06.01.'')"
proof -
  have pd: "plain_dates week_two_labels"
    by code_simp
  have fl: "first_label (canteens week_two_labels) ''2025-01-06'' = Some ''Montag 06.01.''"
    by code_simp
  from buildDayGroupedWeek_first_label [of week_two_labels] pd
  obtain g where g: "buildDayGroupedWeek week_two_labels = Inr g"
    by blast
  from buildDayGroupedWeek_first_label [of week_two_labels g "''2025-01-06''"] g fl
  have "map_option g_label (obj_get (dg_days g) ''2025-01-06'') = Some ''Montag 06.01.''"
    by simp
  with pd fl g show ?thesis by blast
qed


section \<open>Properties of the ISO week\<close>


text \<open>Outside those years \<open>isoWeek\<close> is the week of the specification (lemma
  \<open>isoWeek_eq_spec\<close> above), and the two dates the specification names get its weeks.\<close>

lemma isoWeek_examples:
  "isoWeek (Date_UTC 2024 11 30) = (2025, 1)" "isoWeek (Date_UTC 2023 0 1) = (2022, 52)"
  by code_simp+

section \<open>Properties of the meal normalizer\<close>

text \<open>Every price token is one or two digits, a comma and two digits, so
  \<open>parseLocaleNumber\<close> only ever sees decimal literals; and the tokens stand in the
  price text in the order in which they are returned.\<close>

lemma price_tokens_shape:
  "t \<in> set (price_tokens s) \<Longrightarrow>
     (\<exists>a b c d. t = [a, b, CHR '','', c, d] \<and> is_digit a \<and> is_digit b \<and> is_digit c \<and> is_digit d) \<or>
     (\<exists>a c d. t = [a, CHR '','', c, d] \<and> is_digit a \<and> is_digit c \<and> is_digit d)"
  by (induction s rule: price_tokens.induct) (auto split: if_splits)

lemma price_tokens_subseq: "subseq (concat (price_tokens s)) s"
  by (induction s rule: price_tokens.induct) (auto intro: subseq_Cons')

lemma price_labels_aligned:
  "price (parseMeal item) = Some p \<Longrightarrow>
     labels p = [] \<or> length (labels p) = length (values_of p)"
  by (auto simp: parseMeal_def Let_def split: if_splits)

text \<open>
  Claim C4. For every item fragment, with the amounts parsed from its price text in
  left-to-right order (\<open>priceValues\<close>): no amount gives the price \<open>null\<close>; exactly two
  amounts give the labels students, guests; exactly three give students, staff, guests;
  any other positive count gives no labels; and whenever there is an amount, \<open>values\<close>
  is the list of all parsed amounts in source order.
\<close>

theorem parseMeal_price_tiers:
  "(length (priceValues item) = 0 \<longrightarrow> price (parseMeal item) = None) \<and>
   (length (priceValues item) = 2 \<longrightarrow>
      map_option labels (price (parseMeal item)) = Some [''students'', ''guests'']) \<and>
   (length (priceValues item) = 3 \<longrightarrow>
      map_option labels (price (parseMeal item)) = Some [''students'', ''staff'', ''guests'']) \<and>
   (0 < length (priceValues item) \<and> length (priceValues item) \<noteq> 2 \<and>
      length (priceValues item) \<noteq> 3 \<longrightarrow>
      map_option labels (price (parseMeal item)) = Some []) \<and>
   (0 < length (priceValues item) \<longrightarrow>
      map_option values_of (price (parseMeal item)) = Some (priceValues item))"
  by (simp add: parseMeal_def priceValues_def Let_def)

theorem parseMeal_price_tiers_witness:
  "priceValues (item_of_price ''kein Preis'') = [] \<and>
   price (parseMeal (item_of_price ''kein Preis'')) = None \<and>
   priceValues (item_of_price ''2,20 / 3,30'') = [11 / 5, 33 / 10] \<and>
   map_option labels (price (parseMeal (item_of_price ''2,20 / 3,30''))) =
     Some [''students'', ''guests''] \<and>
   map_option values_of (price (parseMeal (item_of_price ''2,20 / 3,30''))) =
     Some [11 / 5, 33 / 10] \<and>
   priceValues (item_of_price ''1,80 / 2,80 / 3,80'') = [9 / 5, 14 / 5, 19 / 5] \<and>
   map_option labels (price (parseMeal (item_of_price ''1,80 / 2,80 / 3,80''))) =
     Some [''students'', ''staff'', ''guests''] \<and>
   priceValues (item_of_price ''12,50'') = [25 / 2] \<and>
   map_option labels (price (parseMeal (item_of_price ''12,50''))) = Some [] \<and>
   map_option values_of (price (parseMeal (item_of_price ''12,50''))) = Some [25 / 2]"
proof -
  have v0: "priceValues (item_of_price ''kein Preis'') = []"
    by code_simp
  have v2: "priceValues (item_of_price ''2,20 / 3,30'') = [11 / 5, 33 / 10]"
    by code_simp
  have v3: "priceValues (item_of_price ''1,80 / 2,80 / 3,80'') = [9 / 5, 14 / 5, 19 / 5]"
    by code_simp
  have v1: "priceValues (item_of_price ''12,50'') = [25 / 2]"
    by code_simp
  show ?thesis
    using parseMeal_price_tiers [of "item_of_price ''kein Preis''"]
      parseMeal_price_tiers [of "item_of_price ''2,20 / 3,30''"]
      parseMeal_price_tiers [of "item_of_price ''1,80 / 2,80 / 3,80''"]
      parseMeal_price_tiers [of "item_of_price ''12,50''"]
    by (simp add: v0 v1 v2 v3)
qed

end
